theory Spec2Isabelle
  imports Complex_Main "HOL-Library.Multiset" "HOL-Library.Char_ord" "HOL-Library.List_Lexorder"
begin

section \<open>Grouped stratified k-fold splitter (utils.py, class StratifiedGroupKFold)\<close>

text \<open>
  The splitter calls three library functions that are not code of the repository:
  \<^verbatim>\<open>numpy.std\<close>, \<^verbatim>\<open>numpy.mean\<close> and \<^verbatim>\<open>random.Random(seed).shuffle\<close>. They are fields of a
  record that every model function takes as its first argument, so that each theorem
  holds for whatever these functions compute. \<open>np_std\<close> and \<open>np_mean\<close> give the value
  of the reduction on a non-empty list of finite numbers; what numpy does on an empty
  list or on a list holding a non-finite number is written out in \<open>lift_reduce\<close>.
\<close>

record 'g lib =
  np_std :: "real list \<Rightarrow> real"
  np_mean :: "real list \<Rightarrow> real"
  shuffle :: "int \<Rightarrow> ('g \<times> nat list) list \<Rightarrow> ('g \<times> nat list) list"

text \<open>
  A float64 result: a finite number, or \<open>NaN\<close>. Dividing a float64 by zero does not
  raise in numpy: it gives nan (for 0/0) or inf, with a warning; the only consumer here
  is \<^verbatim>\<open>np.std\<close>, which maps a list holding nan or inf to nan, so both are \<open>NaN\<close>.
  Rounding is not modelled on its own: the theorems hold for every \<open>np_std\<close> and \<open>np_mean\<close>,
  also for those that round their arguments and their result to float64.
\<close>

datatype npfloat = Fin real | NaN

fun fin_val :: "npfloat \<Rightarrow> real" where
  "fin_val (Fin r) = r"
| "fin_val NaN = 0"

definition true_divide :: "real \<Rightarrow> nat \<Rightarrow> npfloat" where
  "true_divide a b = (if b = 0 then NaN else Fin (a / real b))"

definition lift_reduce :: "(real list \<Rightarrow> real) \<Rightarrow> npfloat list \<Rightarrow> npfloat" where
  "lift_reduce f xs = (if xs = [] \<or> NaN \<in> set xs then NaN else Fin (f (map fin_val xs)))"

text \<open>Python's \<^verbatim>\<open><\<close> on floats: every comparison with nan is False.\<close>

fun np_less :: "npfloat \<Rightarrow> npfloat \<Rightarrow> bool" where
  "np_less (Fin a) (Fin b) = (a < b)"
| "np_less _ _ = False"

text \<open>
  The object's two fields. \<open>n_splits\<close> is only ever the bound of \<^verbatim>\<open>range(n_splits)\<close>, where a
  negative number behaves as 0, so it is a natural number here.
\<close>

record StratifiedGroupKFold =
  n_splits :: nat
  random_state :: int

datatype error = ValueError | RuntimeError

text \<open>
  Labels are class indices (\<open>nat\<close>), as \<^verbatim>\<open>LabelEncoder\<close> produces them at both call sites;
  \<^verbatim>\<open>np.max(y)\<close> of an empty \<open>y\<close> raises ValueError, which \<open>split\<close> returns
  (RuntimeError is what \<^verbatim>\<open>torch.cat\<close> raises in the label encoder below).
\<close>

definition np_max :: "nat list \<Rightarrow> nat" where
  "np_max y = fold max y 0"

text \<open>
  \<^verbatim>\<open>y_counts_per_group\<close> is a defaultdict whose \<^verbatim>\<open>items()\<close> are read in insertion
  order: an association list, a new group appended with a zero vector.
  \<^verbatim>\<open>y_distr\<close> is a Counter: a total function, 0 for a label never counted.
\<close>

fun incr_group :: "nat \<Rightarrow> 'g \<Rightarrow> nat \<Rightarrow> ('g \<times> nat list) list \<Rightarrow> ('g \<times> nat list) list" where
  "incr_group labels_num g label [] = [(g, (replicate labels_num 0)[label := 1])]"
| "incr_group labels_num g label ((h, v) # rest) =
     (if h = g then (h, v[label := v ! label + 1]) # rest
      else (h, v) # incr_group labels_num g label rest)"

fun count_loop :: "nat \<Rightarrow> (nat \<times> 'g) list \<Rightarrow> ('g \<times> nat list) list \<times> (nat \<Rightarrow> nat)
    \<Rightarrow> ('g \<times> nat list) list \<times> (nat \<Rightarrow> nat)" where
  "count_loop labels_num [] acc = acc"
| "count_loop labels_num ((label, g) # rest) (y_counts_per_group, y_distr) =
     count_loop labels_num rest
       (incr_group labels_num g label y_counts_per_group, y_distr(label := y_distr label + 1))"

text \<open>
  The two defaultdicts keyed by fold. The key is \<open>Some i\<close> for fold \<open>i\<close> and \<open>None\<close> for
  Python's \<^verbatim>\<open>None\<close>, which \<^verbatim>\<open>best_fold\<close> still holds when \<^verbatim>\<open>range(n_splits)\<close> is empty.
\<close>

record 'g folds =
  y_counts_per_fold :: "nat option \<Rightarrow> nat list"
  groups_per_fold :: "nat option \<Rightarrow> 'g set"

definition vec_add :: "nat list \<Rightarrow> nat list \<Rightarrow> nat list" where
  "vec_add a b = map2 (+) a b"

text \<open>
  \<^verbatim>\<open>eval_y_counts_per_fold\<close> adds the group's counts to the fold's row, computes the score
  and subtracts them again; the counts are whole numbers, so the row is restored exactly
  and the model scores an updated copy of the table.
\<close>

definition eval_y_counts_per_fold ::
  "'g lib \<Rightarrow> nat \<Rightarrow> nat \<Rightarrow> (nat \<Rightarrow> nat) \<Rightarrow> (nat option \<Rightarrow> nat list) \<Rightarrow> nat list \<Rightarrow> nat \<Rightarrow> npfloat" where
  "eval_y_counts_per_fold L k labels_num y_distr counts y_counts fold_ix =
     (let counts' = counts(Some fold_ix := vec_add (counts (Some fold_ix)) y_counts);
          std_per_label =
            map (\<lambda>label. lift_reduce (np_std L)
                   (map (\<lambda>i. true_divide (real (counts' (Some i) ! label)) (y_distr label)) [0..<k]))
                [0..<labels_num]
      in lift_reduce (np_mean L) std_per_label)"

text \<open>The inner loop over \<^verbatim>\<open>range(n_splits)\<close>, carrying \<^verbatim>\<open>(best_fold, min_eval)\<close>.\<close>

fun best_fold_loop :: "(nat \<Rightarrow> npfloat) \<Rightarrow> nat list \<Rightarrow> nat option \<times> npfloat option
    \<Rightarrow> nat option \<times> npfloat option" where
  "best_fold_loop ev [] acc = acc"
| "best_fold_loop ev (i # rest) (best_fold, min_eval) =
     (let fold_eval = ev i in
      if (case min_eval of None \<Rightarrow> True | Some m \<Rightarrow> np_less fold_eval m)
      then best_fold_loop ev rest (Some i, Some fold_eval)
      else best_fold_loop ev rest (best_fold, min_eval))"

fun assign_groups :: "'g lib \<Rightarrow> nat \<Rightarrow> nat \<Rightarrow> (nat \<Rightarrow> nat) \<Rightarrow> ('g \<times> nat list) list
    \<Rightarrow> 'g folds \<Rightarrow> 'g folds" where
  "assign_groups L k labels_num y_distr [] st = st"
| "assign_groups L k labels_num y_distr ((g, y_counts) # rest) st =
     (let best_fold = fst (best_fold_loop
            (eval_y_counts_per_fold L k labels_num y_distr (y_counts_per_fold st) y_counts)
            [0..<k] (None, None))
      in assign_groups L k labels_num y_distr rest
           (st\<lparr>y_counts_per_fold := (y_counts_per_fold st)
                   (best_fold := vec_add (y_counts_per_fold st best_fold) y_counts),
               groups_per_fold := (groups_per_fold st)
                   (best_fold := insert g (groups_per_fold st best_fold))\<rparr>))"

text \<open>
  The first loop of \<^verbatim>\<open>split\<close>: the count vector of every group and the label totals.
  \<^verbatim>\<open>zip\<close> stops at the shorter of \<open>y\<close> and \<open>groups\<close>.
\<close>

definition group_counts :: "nat list \<Rightarrow> 'g list \<Rightarrow> ('g \<times> nat list) list \<times> (nat \<Rightarrow> nat)" where
  "group_counts y groups = count_loop (np_max y + 1) (zip y groups) ([], (\<lambda>_. 0))"

text \<open>
  The order in which the groups are assigned: shuffled, then sorted by the key
  \<^verbatim>\<open>-np.std(x[1])\<close>; Python's \<^verbatim>\<open>sorted\<close> is stable, and so is \<open>sort_key\<close>.
\<close>

definition group_std :: "'g lib \<Rightarrow> 'g \<times> nat list \<Rightarrow> real" where
  "group_std L x = np_std L (map real (snd x))"

definition sorted_groups :: "'g lib \<Rightarrow> int \<Rightarrow> ('g \<times> nat list) list \<Rightarrow> ('g \<times> nat list) list" where
  "sorted_groups L seed groups_and_y_counts =
     sort_key (\<lambda>x. - group_std L x) (shuffle L seed groups_and_y_counts)"

definition init_folds :: "nat \<Rightarrow> 'g folds" where
  "init_folds labels_num =
     \<lparr>y_counts_per_fold = (\<lambda>_. replicate labels_num 0), groups_per_fold = (\<lambda>_. {})\<rparr>"

text \<open>The state after the assignment loop, before the first pair is yielded.\<close>

definition assignment :: "'g lib \<Rightarrow> StratifiedGroupKFold \<Rightarrow> nat list \<Rightarrow> 'g list \<Rightarrow> 'g folds" where
  "assignment L self y groups =
     (let labels_num = np_max y + 1;
          y_counts_per_group = fst (group_counts y groups);
          y_distr = snd (group_counts y groups)
      in assign_groups L (n_splits self) labels_num y_distr
           (sorted_groups L (random_state self) y_counts_per_group) (init_folds labels_num))"

definition yield_pair :: "'g list \<Rightarrow> 'g folds \<Rightarrow> nat \<Rightarrow> nat list \<times> nat list" where
  "yield_pair groups st i =
     (let all_groups = set groups;
          train_groups = all_groups - groups_per_fold st (Some i);
          test_groups = groups_per_fold st (Some i)
      in (filter (\<lambda>j. groups ! j \<in> train_groups) [0..<length groups],
          filter (\<lambda>j. groups ! j \<in> test_groups) [0..<length groups]))"

text \<open>
  The generator as the list of the pairs it yields; an exception raised before the first
  \<^verbatim>\<open>yield\<close> is the result \<open>Inl\<close>. The argument \<open>X\<close> is never read.
\<close>

definition split :: "'g lib \<Rightarrow> StratifiedGroupKFold \<Rightarrow> 'x \<Rightarrow> nat list \<Rightarrow> 'g list
    \<Rightarrow> error + (nat list \<times> nat list) list" where
  "split L self X y groups =
     (if y = [] then Inl ValueError
      else Inr (map (yield_pair groups (assignment L self y groups)) [0..<n_splits self]))"

section \<open>Exact instances of the library functions\<close>

text \<open>
  For the examples: numpy's population standard deviation and mean in exact arithmetic, and
  a shuffle that reverses the list whatever the seed. No theorem about \<open>split\<close> depends on
  them.
\<close>

definition mean_exact :: "real list \<Rightarrow> real" where
  "mean_exact xs = sum_list xs / real (length xs)"

definition std_exact :: "real list \<Rightarrow> real" where
  "std_exact xs = sqrt (mean_exact (map (\<lambda>x. (x - mean_exact xs)\<^sup>2) xs))"

definition exact_lib :: "'g lib" where
  "exact_lib = \<lparr>np_std = std_exact, np_mean = mean_exact, shuffle = (\<lambda>seed xs. rev xs)\<rparr>"

section \<open>The inner loop as a choice of the first smallest score\<close>

text \<open>
  Auxiliary notions for the proofs about the loop over \<^verbatim>\<open>range(n_splits)\<close>, on float scores
  that may be nan. A fold \<open>i\<close> has minimum score among the \<open>k\<close> folds when no fold scores
  strictly less (in Python's \<^verbatim>\<open><\<close>); \<open>first_min_fold\<close> is the first such fold in ascending
  order. \<open>first_min ev a b\<close> is the loop invariant: \<open>b\<close> is the first fold of minimum score
  among the folds below \<open>a\<close>. \<open>uniform_nan\<close> says that the scores of a group are all nan or
  all finite.
\<close>

definition is_min_fold :: "(nat \<Rightarrow> npfloat) \<Rightarrow> nat \<Rightarrow> nat \<Rightarrow> bool" where
  "is_min_fold ev k i = (i < k \<and> (\<forall>j<k. \<not> np_less (ev j) (ev i)))"

definition first_min_fold :: "(nat \<Rightarrow> npfloat) \<Rightarrow> nat \<Rightarrow> nat" where
  "first_min_fold ev k = hd (filter (is_min_fold ev k) [0..<k])"

definition first_min :: "(nat \<Rightarrow> npfloat) \<Rightarrow> nat \<Rightarrow> nat \<Rightarrow> bool" where
  "first_min ev a b = (b < a \<and> (\<forall>j<a. \<not> np_less (ev j) (ev b)) \<and> (\<forall>j<b. \<exists>j'<a. np_less (ev j') (ev j)))"

definition uniform_nan :: "(nat \<Rightarrow> npfloat) \<Rightarrow> bool" where
  "uniform_nan ev = ((\<forall>i. ev i = NaN) \<or> (\<forall>i. ev i \<noteq> NaN))"

section \<open>The greedy assignment in the words of the specification\<close>

text \<open>
  The algorithm of the specification, written over the samples (the pairs of a label and a
  group, \<open>zip y groups\<close>), real numbers and the library's \<open>np_std\<close>, \<open>np_mean\<close> and
  \<open>shuffle\<close>; none of the definitions of the splitter above is used.

  Step 1: \<open>y_distr[label]\<close> is the number of samples that carry the label; the count vector
  of a group has one entry per distinct label, the number of samples of the group with that
  label. The pairs (group, count vector) are listed by first occurrence of the group.
\<close>

definition spec_y_distr :: "nat list \<Rightarrow> 'g list \<Rightarrow> nat \<Rightarrow> nat" where
  "spec_y_distr y groups label = length (filter (\<lambda>s. fst s = label) (zip y groups))"

definition spec_group_counts :: "nat list \<Rightarrow> 'g list \<Rightarrow> 'g \<Rightarrow> nat list" where
  "spec_group_counts y groups g =
     map (\<lambda>label. length (filter (\<lambda>s. s = (label, g)) (zip y groups))) [0..<card (set y)]"

definition spec_pairs :: "nat list \<Rightarrow> 'g list \<Rightarrow> ('g \<times> nat list) list" where
  "spec_pairs y groups =
     map (\<lambda>g. (g, spec_group_counts y groups g)) (rev (remdups (rev (map snd (zip y groups)))))"

text \<open>
  The labels are class indices when every number from 0 to the largest label is the label
  of a sample, as the label encoder produces them. Then every \<open>y_distr[label]\<close> is positive
  and the quotients of the score are defined.
\<close>

definition labels_are_class_indices :: "nat list \<Rightarrow> 'g list \<Rightarrow> bool" where
  "labels_are_class_indices y groups = (fst ` set (zip y groups) = {0..Max (set y)})"

text \<open>The per-fold label counts and the groups of every fold, by fold index.\<close>

record 'g spec_folds =
  fold_count :: "nat \<Rightarrow> nat list"
  fold_groups :: "nat \<Rightarrow> 'g set"

definition spec_init :: "nat \<Rightarrow> 'g spec_folds" where
  "spec_init labels_num = \<lparr>fold_count = (\<lambda>_. replicate labels_num 0), fold_groups = (\<lambda>_. {})\<rparr>"

text \<open>
  Step 4. The score of candidate fold \<open>i\<close>: the mean over the labels of the standard
  deviation, across the folds \<open>f\<close>, of \<open>fold_count[f][label] / y_distr[label]\<close>, with the counts
  of the group added to fold \<open>i\<close> only. The group goes to the fold of minimum score, the
  smallest index among equal scores.
\<close>

definition spec_score ::
  "'g lib \<Rightarrow> nat \<Rightarrow> nat \<Rightarrow> (nat \<Rightarrow> nat) \<Rightarrow> (nat \<Rightarrow> nat list) \<Rightarrow> nat list \<Rightarrow> nat \<Rightarrow> real" where
  "spec_score L k labels_num y_distr counts y_counts i =
     np_mean L
       (map (\<lambda>label. np_std L
               (map (\<lambda>f. real ((if f = i then map2 (+) (counts f) y_counts else counts f) ! label)
                          / real (y_distr label)) [0..<k]))
            [0..<labels_num])"

definition spec_best_fold :: "(nat \<Rightarrow> real) \<Rightarrow> nat \<Rightarrow> nat" where
  "spec_best_fold score k = hd (filter (\<lambda>i. \<forall>j \<in> {0..<k}. score i \<le> score j) [0..<k])"

fun spec_assign :: "'g lib \<Rightarrow> nat \<Rightarrow> nat \<Rightarrow> (nat \<Rightarrow> nat) \<Rightarrow> ('g \<times> nat list) list
    \<Rightarrow> 'g spec_folds \<Rightarrow> 'g spec_folds" where
  "spec_assign L k labels_num y_distr [] st = st"
| "spec_assign L k labels_num y_distr ((g, y_counts) # rest) st =
     (let i = spec_best_fold (spec_score L k labels_num y_distr (fold_count st) y_counts) k
      in spec_assign L k labels_num y_distr rest
           (st\<lparr>fold_count := (fold_count st)(i := map2 (+) (fold_count st i) y_counts),
               fold_groups := (fold_groups st)(i := insert g (fold_groups st i))\<rparr>))"

text \<open>A second library record that shuffles as \<open>exact_lib\<close> does for seed 0 only.\<close>

definition other_lib :: "nat lib" where
  "other_lib = exact_lib\<lparr>shuffle := (\<lambda>seed xs. if seed = 0 then rev xs else xs)\<rparr>"

section \<open>Composite label encoder (utils.py, merge_y_and_others)\<close>

text \<open>
  \<^verbatim>\<open>merge_y_and_others\<close> puts the two label columns side by side (\<^verbatim>\<open>torch.cat\<close> along
  dimension 1, which raises RuntimeError when the columns differ in length), turns every
  row into its string \<^verbatim>\<open>str(l)\<close> and encodes the strings with
  \<^verbatim>\<open>LabelEncoder().fit_transform\<close>. The labels are integers: \<open>ys\<close> holds the values after
  \<^verbatim>\<open>.long()\<close>. How numpy prints a row is the parameter \<open>str_row\<close>; \<open>np_row_str\<close> below is
  the rendering of numpy for a row of two integers.
\<close>

text \<open>
  \<^verbatim>\<open>LabelEncoder.fit_transform\<close>: the classes are the distinct values in ascending order
  (strings compare by code point), and every value is replaced by its position among the
  classes.
\<close>

fun index_of :: "'a list \<Rightarrow> 'a \<Rightarrow> nat" where
  "index_of [] x = 0"
| "index_of (c # cs) x = (if c = x then 0 else Suc (index_of cs x))"

definition fit_transform :: "string list \<Rightarrow> nat list" where
  "fit_transform y = (let classes = sort (remdups y) in map (index_of classes) y)"

definition merge_y_and_others :: "(int \<times> int \<Rightarrow> string) \<Rightarrow> int list \<Rightarrow> int list \<Rightarrow> error + nat list" where
  "merge_y_and_others str_row ys indices =
     (if length ys \<noteq> length indices then Inl RuntimeError
      else let tmp = zip ys indices in Inr (fit_transform (map str_row tmp)))"

text \<open>
  numpy's \<^verbatim>\<open>str\<close> of a row of two integers: both in decimal, right-justified with spaces
  to the width of the longer one, separated by one space, in square brackets:
  \<^verbatim>\<open>str(np.array([10, -1])) == '[10 -1]'\<close>, \<^verbatim>\<open>str(np.array([1, 10])) == '[ 1 10]'\<close>.
\<close>

definition digit_char :: "nat \<Rightarrow> char" where
  "digit_char d = ''0123456789'' ! d"

fun str_nat :: "nat \<Rightarrow> string" where
  "str_nat n = (if n < 10 then [digit_char n] else str_nat (n div 10) @ [digit_char (n mod 10)])"

definition str_int :: "int \<Rightarrow> string" where
  "str_int i = (if i < 0 then CHR ''-'' # str_nat (nat (- i)) else str_nat (nat i))"

definition rjust :: "nat \<Rightarrow> string \<Rightarrow> string" where
  "rjust w s = replicate (w - length s) (CHR '' '') @ s"

definition np_row_str :: "int \<times> int \<Rightarrow> string" where
  "np_row_str r =
     (let a = str_int (fst r); b = str_int (snd r); w = max (length a) (length b)
      in ''['' @ rjust w a @ '' '' @ rjust w b @ '']'')"

text \<open>The inverse of \<open>str_nat\<close>, for the proof that the rendering is injective.\<close>

definition digit_val :: "char \<Rightarrow> nat" where
  "digit_val c = of_char c - 48"

definition parse_nat :: "string \<Rightarrow> nat" where
  "parse_nat s = fold (\<lambda>c acc. 10 * acc + digit_val c) s 0"

section \<open>Selection and checkpoint controller (01_pyg_hcp.py, main_loop)\<close>

text \<open>
  The part of \<^verbatim>\<open>main_loop\<close> that runs inside one outer fold: the loop over the parameter
  grid, and for an epoch-trained model the loop over the epochs with early stopping and
  checkpoints. Training and evaluation (\<^verbatim>\<open>classifier_step\<close>, \<^verbatim>\<open>model.fit\<close>) are outside the
  model: what they return, the validation loss of an epoch or the validation AUC of a
  fitted model, is an input. These values are floats that the code only compares; they
  are reals here. The counts \<^verbatim>\<open>N_EPOCHS\<close> and \<^verbatim>\<open>EARLY_STOP_STEPS\<close> are naturals.
  \<^verbatim>\<open>TARGET_VAR == 'gender'\<close> holds whenever the loop is reached (any other value exits
  before), so the test around the loop body is left out.
\<close>

record 'n ctrl =
  last_losses_val :: "real list"
  best_metrics_fold_loss :: real
  best_outer_metric_loss :: real
  best_model_name_outer_fold_loss :: "'n option"

text \<open>
  What one pass through the loop body did: \<open>Stopped\<close> is the \<^verbatim>\<open>break\<close> of early stopping,
  \<open>Kept\<close> a pass that saved nothing, \<open>Saved\<close> a pass that called \<^verbatim>\<open>torch.save\<close> only, and
  \<open>SavedNamed\<close> one that called \<^verbatim>\<open>torch.save\<close> and set \<^verbatim>\<open>best_model_name_outer_fold_loss\<close>.
  An \<open>entry\<close> records it with the index of the parameter combination, its checkpoint
  path \<^verbatim>\<open>model_names['loss']\<close>, the epoch and the validation loss; the loops return the
  list of their entries, one for every call of \<^verbatim>\<open>classifier_step\<close>.
\<close>

datatype action = Stopped | Kept | Saved | SavedNamed

record 'n entry =
  combo :: nat
  path :: 'n
  epoch :: nat
  loss :: real
  act :: action

text \<open>
  \<^verbatim>\<open>sum([val_metrics['loss'] > loss for loss in last_losses_val]) == EARLY_STOP_STEPS\<close>:
  the sum counts the True values.
\<close>

definition early_stop_test :: "nat \<Rightarrow> real \<Rightarrow> real list \<Rightarrow> bool" where
  "early_stop_test steps v window =
     (sum_list (map (\<lambda>l. if v > l then 1 else 0) window) = steps)"

text \<open>\<^verbatim>\<open>deque.append\<close> with \<^verbatim>\<open>maxlen\<close>: a full deque drops its oldest (leftmost) element.\<close>

definition deque_append :: "nat \<Rightarrow> real list \<Rightarrow> real \<Rightarrow> real list" where
  "deque_append maxlen d x =
     (if maxlen = 0 then [] else if length d = maxlen then tl d @ [x] else d @ [x])"

text \<open>The body of the epoch loop after \<^verbatim>\<open>classifier_step\<close> has returned the loss \<open>v\<close>.\<close>

definition epoch_body :: "'n \<Rightarrow> nat \<Rightarrow> real \<Rightarrow> 'n ctrl \<Rightarrow> action \<times> 'n ctrl" where
  "epoch_body name steps v st =
     (if early_stop_test steps v (last_losses_val st) then (Stopped, st)
      else
        let st1 = st\<lparr>last_losses_val := deque_append steps (last_losses_val st) v\<rparr> in
        if v < best_metrics_fold_loss st1 then
          let st2 = st1\<lparr>best_metrics_fold_loss := v\<rparr> in
          if v < best_outer_metric_loss st2
          then (SavedNamed, st2\<lparr>best_outer_metric_loss := v,
                                 best_model_name_outer_fold_loss := Some name\<rparr>)
          else (Saved, st2)
        else (Kept, st1))"

fun epoch_loop :: "'n \<Rightarrow> nat \<Rightarrow> nat \<Rightarrow> (nat \<Rightarrow> real) \<Rightarrow> nat list \<Rightarrow> 'n ctrl
    \<Rightarrow> 'n entry list \<times> 'n ctrl" where
  "epoch_loop name steps c val_loss [] st = ([], st)"
| "epoch_loop name steps c val_loss (ep # rest) st =
     (let v = val_loss ep;
          (a, st') = epoch_body name steps v st;
          e = \<lparr>combo = c, path = name, epoch = ep, loss = v, act = a\<rparr>
      in if a = Stopped then ([e], st')
         else let (es, st'') = epoch_loop name steps c val_loss rest st' in (e # es, st''))"

text \<open>
  One parameter combination of an epoch-trained model: its checkpoint name and the
  validation loss of each epoch. \<^verbatim>\<open>best_metrics_fold\<close> and the window are created anew,
  then the loop runs over \<^verbatim>\<open>range(1, N_EPOCHS)\<close>.
\<close>

definition train_candidate :: "nat \<Rightarrow> nat \<Rightarrow> nat \<Rightarrow> 'n \<times> (nat \<Rightarrow> real) \<Rightarrow> 'n ctrl
    \<Rightarrow> 'n entry list \<times> 'n ctrl" where
  "train_candidate n_epochs steps c p st =
     epoch_loop (fst p) steps c (snd p) [1..<n_epochs]
       (st\<lparr>best_metrics_fold_loss := 1000, last_losses_val := replicate steps 1000\<rparr>)"

fun grid_loop :: "nat \<Rightarrow> nat \<Rightarrow> nat \<Rightarrow> ('n \<times> (nat \<Rightarrow> real)) list \<Rightarrow> 'n ctrl
    \<Rightarrow> 'n entry list \<times> 'n ctrl" where
  "grid_loop n_epochs steps c [] st = ([], st)"
| "grid_loop n_epochs steps c (p # ps) st =
     (let (es, st') = train_candidate n_epochs steps c p st;
          (es', st'') = grid_loop n_epochs steps (Suc c) ps st'
      in (es @ es', st''))"

text \<open>The variables as they are set before \<^verbatim>\<open>for params in grid\<close>.\<close>

definition init_ctrl :: "'n ctrl" where
  "init_ctrl = \<lparr>last_losses_val = [], best_metrics_fold_loss = 1000,
     best_outer_metric_loss = 1000, best_model_name_outer_fold_loss = None\<rparr>"

definition outer_fold :: "nat \<Rightarrow> nat \<Rightarrow> ('n \<times> (nat \<Rightarrow> real)) list \<Rightarrow> 'n entry list \<times> 'n ctrl" where
  "outer_fold n_epochs steps grid = grid_loop n_epochs steps 0 grid init_ctrl"

text \<open>
  The boosted-tree baseline: one \<^verbatim>\<open>fit\<close> per combination, no epochs; the model is dumped
  and named when its validation AUC beats \<^verbatim>\<open>best_outer_metric_auc\<close>. The result lists, for
  every combination, its AUC and whether \<^verbatim>\<open>pickle.dump\<close> was called.
\<close>

record 'n flat_ctrl =
  best_outer_metric_auc :: real
  best_model_name_outer_fold_auc :: "'n option"

fun grid_loop_flatten :: "('n \<times> real) list \<Rightarrow> 'n flat_ctrl \<Rightarrow> (real \<times> bool) list \<times> 'n flat_ctrl" where
  "grid_loop_flatten [] st = ([], st)"
| "grid_loop_flatten ((name, auc) # ps) st =
     (if auc > best_outer_metric_auc st
      then let (ds, st') = grid_loop_flatten ps
                 (st\<lparr>best_outer_metric_auc := auc, best_model_name_outer_fold_auc := Some name\<rparr>)
           in ((auc, True) # ds, st')
      else let (ds, st') = grid_loop_flatten ps st in ((auc, False) # ds, st'))"

definition init_flat_ctrl :: "'n flat_ctrl" where
  "init_flat_ctrl = \<lparr>best_outer_metric_auc = - 1000, best_model_name_outer_fold_auc = None\<rparr>"

text \<open>
  The best value seen so far, for the statements about checkpoints: the least loss among
  the entries that reached the checkpoint test, or the sentinel 1000; the greatest AUC,
  or the sentinel -1000.
\<close>

definition checked :: "'n entry list \<Rightarrow> real list" where
  "checked es = map loss (filter (\<lambda>e. act e \<noteq> Stopped) es)"

definition best_loss :: "real list \<Rightarrow> real" where
  "best_loss vs = fold min vs 1000"

definition best_auc :: "real list \<Rightarrow> real" where
  "best_auc vs = fold max vs (- 1000)"

definition saved :: "'n entry \<Rightarrow> bool" where
  "saved e = (act e = Saved \<or> act e = SavedNamed)"

definition in_combo :: "nat \<Rightarrow> 'n entry list \<Rightarrow> 'n entry list" where
  "in_combo c es = filter (\<lambda>e. combo e = c) es"

text \<open>The path of the last entry that set the best model name, if there is one.\<close>

definition last_named :: "'n entry list \<Rightarrow> 'n option" where
  "last_named es =
     (case filter (\<lambda>e. act e = SavedNamed) es of [] \<Rightarrow> None | x # xs \<Rightarrow> Some (path (last (x # xs))))"

text \<open>Loss curves for the examples: a constant one, and 0.6, 0.5, 0.7, 0.8, 0.9, ...\<close>

definition constant_loss :: "real \<Rightarrow> nat \<Rightarrow> real" where
  "constant_loss v ep = v"

definition example_losses :: "nat \<Rightarrow> real" where
  "example_losses i = (if i < 3 then (7 - real i) / 10 else (4 + real i) / 10)"

text \<open>
  Two predicates for the proofs about checkpoints. \<open>entry_ok pre e\<close>: the entry \<open>e\<close>, coming
  after the entries \<open>pre\<close>, saved exactly when its loss beat the best of its own combination
  and named exactly when it beat the best of all of \<open>pre\<close>. \<open>ctrl_inv c pre st\<close>: the variables of
  the state \<open>st\<close> hold the best values of the entries \<open>pre\<close>, \<open>c\<close> the running combination.
\<close>

definition entry_ok :: "'n entry list \<Rightarrow> 'n entry \<Rightarrow> bool" where
  "entry_ok pre e =
     (act e \<noteq> Stopped \<longrightarrow>
        saved e = (loss e < best_loss (checked (in_combo (combo e) pre))) \<and>
        (act e = SavedNamed) = (loss e < best_loss (checked pre)))"

definition ctrl_inv :: "nat \<Rightarrow> 'n entry list \<Rightarrow> 'n ctrl \<Rightarrow> bool" where
  "ctrl_inv c pre st =
     (best_outer_metric_loss st = best_loss (checked pre) \<and>
      best_metrics_fold_loss st = best_loss (checked (in_combo c pre)) \<and>
      best_model_name_outer_fold_loss st = last_named pre)"

text \<open>
  For the proofs about early stopping: the window at the head of epoch \<open>k\<close> when no
  earlier epoch of the combination stopped.
\<close>

definition window_at :: "nat \<Rightarrow> (nat \<Rightarrow> real) \<Rightarrow> nat \<Rightarrow> real list" where
  "window_at steps vl k = drop (k - 1) (replicate steps 1000 @ map vl [1..<k])"
section \<open>Proofs about the splitter\<close>

subsection \<open>Auxiliary lemmas\<close>

lemma np_less_Fin: "np_less x y \<Longrightarrow> \<exists>a b. x = Fin a \<and> y = Fin b \<and> a < b"
  by (cases x; cases y) auto

lemma first_min_step:
  assumes u: "uniform_nan ev" and inv: "first_min ev a b"
  shows "first_min ev (Suc a) (if np_less (ev a) (ev b) then a else b)"
proof (cases "np_less (ev a) (ev b)")
  case False
  with inv show ?thesis
    by (auto simp: first_min_def less_Suc_eq)
next
  case True
  then obtain x y where xy: "ev a = Fin x" "ev b = Fin y" "x < y"
    using np_less_Fin by blast
  with u have fin: "\<And>i. ev i \<noteq> NaN"
    by (auto simp: uniform_nan_def)
  have lt: "np_less (ev a) (ev j)" if "j < a" for j
  proof -
    from fin[of j] obtain z where z: "ev j = Fin z" by (cases "ev j") auto
    from inv that have "\<not> np_less (ev j) (ev b)" by (simp add: first_min_def)
    with z xy show ?thesis by simp
  qed
  have nl: "\<not> np_less (ev j) (ev a)" if "j < Suc a" for j
  proof (cases "j = a")
    case True
    then show ?thesis using xy by simp
  next
    case False
    with that have "j < a" by simp
    from lt[OF this] show ?thesis
      by (cases "ev j"; cases "ev a") auto
  qed
  from True lt nl show ?thesis
    by (auto simp: first_min_def)
qed

lemma best_fold_loop_upt:
  assumes u: "uniform_nan ev"
  shows "a \<le> k \<Longrightarrow> first_min ev a b \<Longrightarrow>
    \<exists>b'. best_fold_loop ev [a..<k] (Some b, Some (ev b)) = (Some b', Some (ev b')) \<and> first_min ev k b'"
proof (induction "k - a" arbitrary: a b)
  case 0
  then show ?case by simp
next
  case (Suc n)
  then have lt: "a < k" and n: "n = k - Suc a" by auto
  let ?b = "if np_less (ev a) (ev b) then a else b"
  from first_min_step[OF u Suc.prems(2)] have fm: "first_min ev (Suc a) ?b" .
  from Suc.hyps(1)[OF n _ fm] lt obtain b' where
    b': "best_fold_loop ev [Suc a..<k] (Some ?b, Some (ev ?b)) = (Some b', Some (ev b'))"
        "first_min ev k b'"
    by auto
  from lt have "[a..<k] = a # [Suc a..<k]" by (simp add: upt_conv_Cons)
  with b' show ?case by (auto simp: Let_def)
qed

lemma first_min_hd:
  assumes "first_min ev k b"
  shows "first_min_fold ev k = b"
proof -
  from assms have bk: "b < k" and mn: "is_min_fold ev k b"
    and nm: "\<And>j. j < b \<Longrightarrow> \<not> is_min_fold ev k j"
    by (auto simp: first_min_def is_min_fold_def)
  from bk have "[0..<k] = [0..<b] @ b # [Suc b..<k]"
    by (metis le_add2 less_imp_add_positive plus_nat.add_0 upt_add_eq_append upt_conv_Cons zero_le)
  moreover from nm have "filter (is_min_fold ev k) [0..<b] = []"
    by (simp add: filter_empty_conv)
  ultimately show ?thesis using mn by (simp add: first_min_fold_def)
qed

lemma best_fold_loop_spec:
  assumes u: "uniform_nan ev" and k: "0 < k"
  shows "fst (best_fold_loop ev [0..<k] (None, None)) = Some (first_min_fold ev k)
         \<and> is_min_fold ev k (first_min_fold ev k)"
proof -
  from k have up: "[0..<k] = 0 # [Suc 0..<k]" by (simp add: upt_conv_Cons)
  have fm: "first_min ev (Suc 0) 0"
    by (cases "ev 0") (auto simp: first_min_def)
  from best_fold_loop_upt[OF u _ fm, of k] k obtain b' where
    b': "best_fold_loop ev [Suc 0..<k] (Some 0, Some (ev 0)) = (Some b', Some (ev b'))" "first_min ev k b'"
    by auto
  from first_min_hd[OF b'(2)] b' up show ?thesis
    by (auto simp: first_min_def is_min_fold_def)
qed

lemma lift_reduce_map_NaN:
  "lift_reduce f (map g xs) = NaN \<longleftrightarrow> xs = [] \<or> (\<exists>x\<in>set xs. g x = NaN)"
  by (auto simp: lift_reduce_def image_iff eq_commute[of NaN])

lemma true_divide_NaN: "true_divide a d = NaN \<longleftrightarrow> d = 0"
  by (simp add: true_divide_def)

lemma eval_NaN_iff:
  "eval_y_counts_per_fold L k labels_num y_distr counts y_counts i = NaN \<longleftrightarrow>
     labels_num = 0 \<or> k = 0 \<or> (\<exists>label<labels_num. y_distr label = 0)"
  unfolding eval_y_counts_per_fold_def Let_def lift_reduce_map_NaN true_divide_NaN
  by (cases "k = 0") auto

lemma eval_uniform: "uniform_nan (eval_y_counts_per_fold L k labels_num y_distr counts y_counts)"
  unfolding uniform_nan_def eval_NaN_iff by blast

lemma best_fold_eval:
  assumes "0 < k"
  shows "fst (best_fold_loop (eval_y_counts_per_fold L k labels_num y_distr counts y_counts) [0..<k] (None, None))
     = Some (first_min_fold (eval_y_counts_per_fold L k labels_num y_distr counts y_counts) k)"
    and "first_min_fold (eval_y_counts_per_fold L k labels_num y_distr counts y_counts) k < k"
  using best_fold_loop_spec[OF eval_uniform[of L k labels_num y_distr counts y_counts] assms]
  by (simp_all add: is_min_fold_def)

lemma sorted_groups_mset: "mset (sorted_groups L seed xs) = mset (shuffle L seed xs)"
  by (simp add: sorted_groups_def)

lemma sorted_groups_descending:
  "sorted_wrt (\<lambda>a b. group_std L b \<le> group_std L a) (sorted_groups L seed xs)"
proof -
  have "sorted (map (\<lambda>x. - group_std L x) (sorted_groups L seed xs))"
    unfolding sorted_groups_def by (rule sorted_sort_key)
  then show ?thesis by (simp add: sorted_map)
qed

lemma sorted_groups_stable:
  "filter (\<lambda>x. group_std L x = s) (sorted_groups L seed xs)
     = filter (\<lambda>x. group_std L x = s) (shuffle L seed xs)"
  using sort_key_stable[of "\<lambda>x. - group_std L x" "- s" "shuffle L seed xs"]
  by (simp add: sorted_groups_def)

lemma incr_group_keys:
  "map fst (incr_group n g l xs) = (if g \<in> set (map fst xs) then map fst xs else map fst xs @ [g])"
proof (induction xs)
  case Nil
  show ?case by simp
next
  case (Cons x xs)
  obtain h v where x: "x = (h, v)" by (cases x)
  show ?case
  proof (cases "h = g")
    case True
    then show ?thesis by (simp add: x)
  next
    case False
    with Cons.IH show ?thesis by (simp add: x)
  qed
qed

lemma count_loop_keys:
  "distinct (map fst items) \<Longrightarrow>
     distinct (map fst (fst (count_loop n zs (items, d)))) \<and>
     set (map fst (fst (count_loop n zs (items, d)))) = set (map fst items) \<union> set (map snd zs)"
proof (induction zs arbitrary: items d)
  case Nil
  then show ?case by simp
next
  case (Cons z zs)
  obtain l g where z: "z = (l, g)" by (cases z)
  have d: "distinct (map fst (incr_group n g l items))"
    using Cons.prems by (simp add: incr_group_keys)
  have s: "set (map fst (incr_group n g l items)) = insert g (set (map fst items))"
    by (auto simp: incr_group_keys)
  have step: "count_loop n (z # zs) (items, d) = count_loop n zs (incr_group n g l items, d(l := d l + 1))"
    by (simp only: z count_loop.simps)
  have e: "set (map snd (z # zs)) = insert g (set (map snd zs))"
    by (simp add: z)
  have IH: "distinct (map fst (fst (count_loop n zs (incr_group n g l items, d(l := d l + 1))))) \<and>
     set (map fst (fst (count_loop n zs (incr_group n g l items, d(l := d l + 1)))))
       = set (map fst (incr_group n g l items)) \<union> set (map snd zs)"
    by (rule Cons.IH[OF d])
  show ?case unfolding step e using IH unfolding s by blast
qed

lemma group_counts_keys:
  assumes "length y = length groups"
  shows "distinct (map fst (fst (group_counts y groups)))"
    and "fst ` set (fst (group_counts y groups)) = set groups"
proof -
  have "map snd (zip y groups) = groups"
    using assms by (rule map_snd_zip)
  with count_loop_keys[of "[]" "np_max y + 1" "zip y groups" "\<lambda>_. 0"]
  show "distinct (map fst (fst (group_counts y groups)))"
    and "fst ` set (fst (group_counts y groups)) = set groups"
    by (simp_all add: group_counts_def)
qed

lemma sorted_groups_keys:
  assumes "mset (shuffle L seed xs) = mset xs"
  shows "distinct (map fst (sorted_groups L seed xs)) = distinct (map fst xs)"
    and "set (sorted_groups L seed xs) = set xs"
proof -
  have m: "mset (sorted_groups L seed xs) = mset xs"
    using assms by (simp add: sorted_groups_mset)
  then have "mset (map fst (sorted_groups L seed xs)) = mset (map fst xs)"
    by simp
  then show "distinct (map fst (sorted_groups L seed xs)) = distinct (map fst xs)"
    by (rule mset_eq_imp_distinct_iff)
  from m show "set (sorted_groups L seed xs) = set xs"
    by (rule mset_eq_setD)
qed

lemma assign_groups_member:
  assumes k: "0 < k"
  shows "distinct (map fst xs) \<Longrightarrow>
     (\<forall>g \<in> fst ` set xs. \<exists>b<k. \<forall>j.
        g \<in> groups_per_fold (assign_groups L k n d xs st) j \<longleftrightarrow> j = Some b \<or> g \<in> groups_per_fold st j) \<and>
     (\<forall>g. g \<notin> fst ` set xs \<longrightarrow> (\<forall>j.
        g \<in> groups_per_fold (assign_groups L k n d xs st) j \<longleftrightarrow> g \<in> groups_per_fold st j))"
proof (induction xs arbitrary: st)
  case Nil
  show ?case by simp
next
  case (Cons x xs)
  obtain g yc where x: "x = (g, yc)" by (cases x)
  define b where "b = first_min_fold (eval_y_counts_per_fold L k n d (y_counts_per_fold st) yc) k"
  define st1 where "st1 = st\<lparr>y_counts_per_fold := (y_counts_per_fold st)
                   (Some b := vec_add (y_counts_per_fold st (Some b)) yc),
               groups_per_fold := (groups_per_fold st)
                   (Some b := insert g (groups_per_fold st (Some b)))\<rparr>"
  have bk: "b < k" unfolding b_def by (rule best_fold_eval(2)[OF k])
  have step: "assign_groups L k n d (x # xs) st = assign_groups L k n d xs st1"
    unfolding x assign_groups.simps Let_def best_fold_eval(1)[OF k] st1_def b_def ..
  have g1: "\<And>h j. h \<in> groups_per_fold st1 j \<longleftrightarrow> (h = g \<and> j = Some b) \<or> h \<in> groups_per_fold st j"
    by (auto simp: st1_def)
  from Cons.prems have dx: "distinct (map fst xs)" and gx: "g \<notin> fst ` set xs"
    by (auto simp: x)
  note IH = Cons.IH[OF dx, of st1]
  show ?case
  proof (intro conjI ballI allI impI)
    fix h assume "h \<in> fst ` set (x # xs)"
    then consider "h = g" | "h \<in> fst ` set xs" "h \<noteq> g"
      by (auto simp: x)
    then show "\<exists>b<k. \<forall>j. h \<in> groups_per_fold (assign_groups L k n d (x # xs) st) j
        \<longleftrightarrow> j = Some b \<or> h \<in> groups_per_fold st j"
    proof cases
      case 1
      with IH gx have "\<forall>j. h \<in> groups_per_fold (assign_groups L k n d xs st1) j \<longleftrightarrow> h \<in> groups_per_fold st1 j"
        by blast
      with 1 g1 bk show ?thesis unfolding step by blast
    next
      case 2
      with IH obtain c where "c < k"
        "\<forall>j. h \<in> groups_per_fold (assign_groups L k n d xs st1) j \<longleftrightarrow> j = Some c \<or> h \<in> groups_per_fold st1 j"
        by blast
      with 2 g1 show ?thesis unfolding step by blast
    qed
  next
    fix h j assume "h \<notin> fst ` set (x # xs)"
    then have "h \<noteq> g" "h \<notin> fst ` set xs" by (auto simp: x)
    with IH g1 show "h \<in> groups_per_fold (assign_groups L k n d (x # xs) st) j \<longleftrightarrow> h \<in> groups_per_fold st j"
      unfolding step by blast
  qed
qed

lemma upt_2: "[0..<2] = [0, 1]"
  by (simp add: upt_rec)

lemma assign_groups_step:
  assumes "fst (best_fold_loop (eval_y_counts_per_fold L k n d (y_counts_per_fold st) yc) [0..<k] (None, None)) = b"
  shows "assign_groups L k n d ((g, yc) # rest) st =
    assign_groups L k n d rest
      (st\<lparr>y_counts_per_fold := (y_counts_per_fold st)(b := vec_add (y_counts_per_fold st b) yc),
          groups_per_fold := (groups_per_fold st)(b := insert g (groups_per_fold st b))\<rparr>)"
  using assms by (simp add: Let_def)

lemma ex_counts: "group_counts [0,0,0,0] [7,7,8,8::nat] = ([(7,[2]),(8,[2])], (\<lambda>_. 0)(0 := 4))"
  by (simp add: group_counts_def np_max_def eval_nat_numeral)

lemma ex_sorted: "sorted_groups (exact_lib :: nat lib) 0 [(7,[2]),(8,[2])] = [(8,[2]),(7,[2])]"
  by (simp add: sorted_groups_def exact_lib_def group_std_def std_exact_def mean_exact_def)

lemmas score_defs = exact_lib_def std_exact_def mean_exact_def eval_y_counts_per_fold_def
  lift_reduce_def true_divide_def vec_add_def Let_def upt_2

lemma ex_assignment:
  "assignment (exact_lib :: nat lib) \<lparr>n_splits = 2, random_state = 0\<rparr> [0,0,0,0] [7,7,8,8::nat]
     = \<lparr>y_counts_per_fold = (\<lambda>_. [0])(Some 0 := [2], Some 1 := [2]),
        groups_per_fold = (\<lambda>_. {})(Some 0 := {8}, Some 1 := {7})\<rparr>"
proof -
  define d :: "nat \<Rightarrow> nat" where "d = (\<lambda>_. 0)(0 := 4)"
  define st0 :: "nat folds" where "st0 = \<lparr>y_counts_per_fold = (\<lambda>_. [0]), groups_per_fold = (\<lambda>_. {})\<rparr>"
  define st1 :: "nat folds" where "st1 = \<lparr>y_counts_per_fold = (\<lambda>_. [0])(Some 0 := [2]), groups_per_fold = (\<lambda>_. {})(Some 0 := {8})\<rparr>"
  define st2 :: "nat folds" where "st2 = \<lparr>y_counts_per_fold = (\<lambda>_. [0])(Some 0 := [2], Some 1 := [2]),
        groups_per_fold = (\<lambda>_. {})(Some 0 := {8}, Some 1 := {7})\<rparr>"
  have b1: "fst (best_fold_loop (eval_y_counts_per_fold exact_lib 2 1 d (y_counts_per_fold st0) [2]) [0..<2] (None, None)) = Some 0"
    by (simp add: score_defs d_def st0_def)
  have b2: "fst (best_fold_loop (eval_y_counts_per_fold exact_lib 2 1 d (y_counts_per_fold st1) [2]) [0..<2] (None, None)) = Some 1"
    by (simp add: score_defs d_def st1_def)
  have e1: "st0\<lparr>y_counts_per_fold := (y_counts_per_fold st0)(Some 0 := vec_add (y_counts_per_fold st0 (Some 0)) [2]),
          groups_per_fold := (groups_per_fold st0)(Some 0 := insert 8 (groups_per_fold st0 (Some 0)))\<rparr> = st1"
    by (simp add: st0_def st1_def vec_add_def numeral_2_eq_2)
  have e2: "st1\<lparr>y_counts_per_fold := (y_counts_per_fold st1)(Some 1 := vec_add (y_counts_per_fold st1 (Some 1)) [2]),
          groups_per_fold := (groups_per_fold st1)(Some 1 := insert 7 (groups_per_fold st1 (Some 1)))\<rparr> = st2"
    by (simp add: st1_def st2_def vec_add_def numeral_2_eq_2)
  have s1: "assign_groups exact_lib 2 1 d [(8,[2]),(7,[2])] st0 = assign_groups exact_lib 2 1 d [(7,[2])] st1"
    by (simp only: assign_groups_step[OF b1] e1)
  have s2: "assign_groups exact_lib 2 1 d [(7,[2])] st1 = st2"
    unfolding assign_groups_step[OF b2] e2 by simp
  have n: "np_max [0,0,0,0] + 1 = 1" by (simp add: np_max_def)
  have i: "init_folds 1 = st0" by (simp add: init_folds_def st0_def)
  show ?thesis
    unfolding assignment_def Let_def ex_counts n fst_conv snd_conv StratifiedGroupKFold.simps
      ex_sorted i d_def[symmetric] s1 s2 st2_def ..
qed

lemma ex_split:
  "split (exact_lib :: nat lib) \<lparr>n_splits = 2, random_state = 0\<rparr> () [0,0,0,0] [7,7,8,8::nat]
     = Inr [([0,1],[2,3]), ([2,3],[0,1])]"
  unfolding Spec2Isabelle.split_def ex_assignment
  by (simp add: yield_pair_def upt_2)

lemma exact_shuffle_permutes: "mset (shuffle exact_lib seed xs) = mset xs"
  by (simp add: exact_lib_def)

lemma yield_pair_sets:
  "set (fst (yield_pair groups st i)) \<inter> set (snd (yield_pair groups st i)) = {}"
  "set (fst (yield_pair groups st i)) \<union> set (snd (yield_pair groups st i)) = {0..<length groups}"
  by (auto simp: yield_pair_def)

lemma yield_pair_sorted:
  "sorted_wrt (<) (fst (yield_pair groups st i))" "sorted_wrt (<) (snd (yield_pair groups st i))"
  by (simp_all add: yield_pair_def sorted_wrt_filter)

lemma yield_pair_test:
  "j \<in> set (snd (yield_pair groups st i)) \<longleftrightarrow> j < length groups \<and> groups ! j \<in> groups_per_fold st (Some i)"
  by (auto simp: yield_pair_def)

lemma split_Inr:
  "y \<noteq> [] \<Longrightarrow> split L self X y groups
     = Inr (map (yield_pair groups (assignment L self y groups)) [0..<n_splits self])"
  by (simp add: Spec2Isabelle.split_def)

lemma assignment_fold_of:
  assumes len: "length y = length groups" and k: "0 < n_splits self"
    and sh: "\<forall>xs. mset (shuffle L (random_state self) xs) = mset xs"
  shows "g \<in> set groups \<Longrightarrow> \<exists>b<n_splits self. \<forall>j.
           g \<in> groups_per_fold (assignment L self y groups) j \<longleftrightarrow> j = Some b"
    and "g \<notin> set groups \<Longrightarrow> g \<notin> groups_per_fold (assignment L self y groups) j"
proof -
  let ?items = "fst (group_counts y groups)"
  let ?order = "sorted_groups L (random_state self) ?items"
  from sh have m: "mset (shuffle L (random_state self) ?items) = mset ?items" by blast
  have d: "distinct (map fst ?order)"
    using sorted_groups_keys(1)[OF m] group_counts_keys(1)[OF len] by simp
  have s: "fst ` set ?order = set groups"
    using sorted_groups_keys(2)[OF m] group_counts_keys(2)[OF len] by simp
  note mem = assign_groups_member[OF k d, of L "np_max y + 1" "snd (group_counts y groups)"
      "init_folds (np_max y + 1)", unfolded s]
  have a: "assignment L self y groups = assign_groups L (n_splits self) (np_max y + 1)
      (snd (group_counts y groups)) ?order (init_folds (np_max y + 1))"
    by (simp add: assignment_def Let_def)
  have e: "\<And>j. groups_per_fold (init_folds (np_max y + 1) :: 'a folds) j = {}"
    by (simp add: init_folds_def)
  show "g \<in> set groups \<Longrightarrow> \<exists>b<n_splits self. \<forall>j.
           g \<in> groups_per_fold (assignment L self y groups) j \<longleftrightarrow> j = Some b"
    using mem unfolding a e by simp
  show "g \<notin> set groups \<Longrightarrow> g \<notin> groups_per_fold (assignment L self y groups) j"
    using mem unfolding a e by simp
qed

lemma ex_one_fold:
  "split (exact_lib :: nat lib) \<lparr>n_splits = 1, random_state = 0\<rparr> () [0,0] [7,7::nat] = Inr [([], [0,1])]"
  by (simp add: Spec2Isabelle.split_def assignment_def group_counts_def np_max_def exact_lib_def
      sorted_groups_def group_std_def init_folds_def yield_pair_def Let_def)

lemma ex_one_group:
  "split (exact_lib :: nat lib) \<lparr>n_splits = 2, random_state = 0\<rparr> () [0,0] [7,7::nat]
     = Inr [([], [0,1]), ([0,1], [])]"
  by (simp add: Spec2Isabelle.split_def assignment_def group_counts_def np_max_def exact_lib_def
      sorted_groups_def group_std_def init_folds_def yield_pair_def Let_def
      std_exact_def mean_exact_def eval_y_counts_per_fold_def lift_reduce_def true_divide_def
      vec_add_def upt_2)

subsection \<open>The loops of the splitter against the specification\<close>

lemma count_loop_snoc:
  "count_loop n (ps @ [(l, g)]) acc =
     (incr_group n g l (fst (count_loop n ps acc)),
      (snd (count_loop n ps acc))(l := snd (count_loop n ps acc) l + 1))"
proof (induction ps arbitrary: acc)
  case Nil
  show ?case by (cases acc) (simp add: fun_eq_iff)
next
  case (Cons p ps)
  obtain l' g' where p: "p = (l', g')" by (cases p)
  obtain c d where acc: "acc = (c, d)" by (cases acc)
  show ?case unfolding p acc by (simp add: Cons.IH)
qed

lemma count_loop_distr:
  "snd (count_loop n ps (c, d)) label = d label + length (filter (\<lambda>s. fst s = label) ps)"
proof (induction ps arbitrary: c d)
  case Nil
  show ?case by simp
next
  case (Cons p ps)
  obtain l' g' where p: "p = (l', g')" by (cases p)
  show ?case unfolding p by (simp add: Cons.IH)
qed

lemma first_occ_snoc:
  "rev (remdups (rev (xs @ [g]))) = (if g \<in> set xs then rev (remdups (rev xs)) else rev (remdups (rev xs)) @ [g])"
  by simp

lemma incr_group_map:
  assumes "distinct hs"
  shows "incr_group n g l (map (\<lambda>h. (h, f h)) hs) =
     (if g \<in> set hs then map (\<lambda>h. (h, if h = g then (f h)[l := f h ! l + 1] else f h)) hs
      else map (\<lambda>h. (h, f h)) hs @ [(g, (replicate n 0)[l := 1])])"
  using assms
proof (induction hs)
  case Nil
  show ?case by simp
next
  case (Cons h hs)
  then have d: "distinct hs" and nh: "h \<notin> set hs" by auto
  show ?case
  proof (cases "h = g")
    case True
    with nh have "map (\<lambda>h. (h, if h = g then (f h)[l := f h ! l + 1] else f h)) hs = map (\<lambda>h. (h, f h)) hs"
      by (intro map_cong) auto
    with True show ?thesis by simp
  next
    case False
    with Cons.IH[OF d] show ?thesis by auto
  qed
qed

lemma count_vec_snoc_same:
  assumes "l < n"
  shows "(map (\<lambda>label. length (filter (\<lambda>s. s = (label, g)) ps)) [0..<n])
            [l := map (\<lambda>label. length (filter (\<lambda>s. s = (label, g)) ps)) [0..<n] ! l + 1]
         = map (\<lambda>label. length (filter (\<lambda>s. s = (label, g)) (ps @ [(l, g)]))) [0..<n]"
  using assms by (intro nth_equalityI) (auto simp: nth_list_update)

lemma count_vec_snoc_other:
  assumes "h \<noteq> g"
  shows "map (\<lambda>label. length (filter (\<lambda>s. s = (label, h)) (ps @ [(l, g)]))) [0..<n]
         = map (\<lambda>label. length (filter (\<lambda>s. s = (label, h)) ps)) [0..<n]"
  using assms by simp

lemma count_vec_new:
  assumes "g \<notin> snd ` set ps" and "l < n"
  shows "(replicate n 0)[l := 1]
         = map (\<lambda>label. length (filter (\<lambda>s. s = (label, g)) (ps @ [(l, g)]))) [0..<n]"
proof -
  have "filter (\<lambda>s. s = (label, g)) ps = []" for label
    using assms(1) by (auto simp: filter_empty_conv image_iff)
  then show ?thesis
    using assms(2) by (intro nth_equalityI) (auto simp: nth_list_update)
qed

lemma count_loop_pairs:
  assumes "\<forall>s \<in> set ps. fst s < n"
  shows "fst (count_loop n ps ([], d0)) =
     map (\<lambda>g. (g, map (\<lambda>label. length (filter (\<lambda>s. s = (label, g)) ps)) [0..<n]))
         (rev (remdups (rev (map snd ps))))"
  using assms
proof (induction ps rule: rev_induct)
  case Nil
  show ?case by simp
next
  case (snoc p ps)
  obtain l g where p: "p = (l, g)" by (cases p)
  from snoc.prems have ln: "l < n" and pre: "\<forall>s \<in> set ps. fst s < n" by (auto simp: p)
  let ?hs = "rev (remdups (rev (map snd ps)))"
  let ?f = "\<lambda>ps g. map (\<lambda>label. length (filter (\<lambda>s. s = (label, g)) ps)) [0..<n]"
  have dist: "distinct ?hs" by simp
  have sets: "set ?hs = snd ` set ps" by simp
  have step: "fst (count_loop n (ps @ [p]) ([], d0)) = incr_group n g l (map (\<lambda>h. (h, ?f ps h)) ?hs)"
    unfolding p count_loop_snoc fst_conv snoc.IH[OF pre] ..
  show ?case
  proof (cases "g \<in> snd ` set ps")
    case True
    have "map (\<lambda>h. (h, if h = g then (?f ps h)[l := ?f ps h ! l + 1] else ?f ps h)) ?hs
        = map (\<lambda>h. (h, ?f (ps @ [p]) h)) ?hs"
    proof (intro map_cong refl)
      fix h
      show "(h, if h = g then (?f ps h)[l := ?f ps h ! l + 1] else ?f ps h) = (h, ?f (ps @ [p]) h)"
        unfolding p using count_vec_snoc_same[OF ln, of g ps] count_vec_snoc_other[of h g ps l n]
        by (cases "h = g") simp_all
    qed
    moreover have "rev (remdups (rev (map snd (ps @ [p])))) = ?hs"
      using True by (simp add: p)
    ultimately show ?thesis
      unfolding step incr_group_map[OF dist] sets using True by simp
  next
    case False
    have "map (\<lambda>h. (h, ?f ps h)) ?hs = map (\<lambda>h. (h, ?f (ps @ [p]) h)) ?hs"
    proof (intro map_cong refl)
      fix h assume "h \<in> set ?hs"
      with False have "h \<noteq> g" by auto
      from count_vec_snoc_other[OF this, of ps l n]
      show "(h, ?f ps h) = (h, ?f (ps @ [p]) h)" unfolding p by simp
    qed
    moreover have "rev (remdups (rev (map snd (ps @ [p])))) = ?hs @ [g]"
      using False by (simp add: p)
    moreover note count_vec_new[OF False ln]
    ultimately show ?thesis
      unfolding step incr_group_map[OF dist] sets using False by (simp add: p)
  qed
qed

lemma np_max_Max:
  assumes "y \<noteq> []"
  shows "np_max y = Max (set y)"
proof -
  from assms obtain x xs where y: "y = x # xs" by (cases y) auto
  show ?thesis unfolding y np_max_def Max.set_eq_fold by simp
qed

lemma class_indices_card:
  assumes "y \<noteq> []" and "labels_are_class_indices y groups"
  shows "card (set y) = Suc (Max (set y))"
proof -
  have "fst ` set (zip y groups) \<subseteq> set y"
    by (auto dest: set_zip_leftD)
  moreover have "set y \<subseteq> {0..Max (set y)}"
    by auto
  ultimately have "set y = {0..Max (set y)}"
    using assms(2) unfolding labels_are_class_indices_def by auto
  then have "card (set y) = card {0..Max (set y)}" by simp
  then show ?thesis by simp
qed

lemma group_counts_distr:
  "snd (group_counts y groups) = spec_y_distr y groups"
  unfolding group_counts_def spec_y_distr_def
  by (intro ext) (simp add: count_loop_distr)

lemma group_counts_pairs:
  assumes "y \<noteq> []" and "labels_are_class_indices y groups"
  shows "fst (group_counts y groups) = spec_pairs y groups"
proof -
  have "\<forall>s \<in> set (zip y groups). fst s < np_max y + 1"
    unfolding np_max_Max[OF assms(1)]
    by (auto dest!: set_zip_leftD simp: less_Suc_eq_le)
  from count_loop_pairs[OF this] show ?thesis
    unfolding group_counts_def spec_pairs_def spec_group_counts_def
      class_indices_card[OF assms] np_max_Max[OF assms(1)]
    by simp
qed

lemma class_indices_distr:
  assumes "labels_are_class_indices y groups" and "label < Suc (Max (set y))"
  shows "0 < spec_y_distr y groups label"
proof -
  from assms have "label \<in> fst ` set (zip y groups)"
    unfolding labels_are_class_indices_def by auto
  then show ?thesis
    unfolding spec_y_distr_def by (auto simp: filter_empty_conv)
qed

lemma no_class_indices_distr:
  assumes n: "\<not> labels_are_class_indices y groups"
  shows "\<exists>label<Suc (Max (set y)). spec_y_distr y groups label = 0"
proof -
  have "fst ` set (zip y groups) \<subseteq> {0..Max (set y)}"
    by (auto dest!: set_zip_leftD)
  with n have "\<exists>label\<in>{0..Max (set y)}. label \<notin> fst ` set (zip y groups)"
    unfolding labels_are_class_indices_def by blast
  then obtain label where "label \<le> Max (set y)" "label \<notin> fst ` set (zip y groups)"
    by auto
  then show ?thesis
    unfolding spec_y_distr_def
    by (auto simp: filter_empty_conv less_Suc_eq_le image_iff intro!: exI[of _ label])
qed

lemma lift_reduce_Fin:
  assumes "xs \<noteq> []"
  shows "lift_reduce f (map (\<lambda>x. Fin (g x)) xs) = Fin (f (map g xs))"
  using assms by (auto simp: lift_reduce_def comp_def)

lemma eval_defined:
  assumes k: "0 < k" and n: "0 < labels_num"
    and d: "\<forall>label<labels_num. 0 < y_distr label"
    and c: "\<forall>i. counts (Some i) = c i"
  shows "eval_y_counts_per_fold L k labels_num y_distr counts y_counts i
           = Fin (spec_score L k labels_num y_distr c y_counts i)"
proof -
  have inner: "map (\<lambda>f. true_divide
                  (real ((counts(Some i := vec_add (counts (Some i)) y_counts)) (Some f) ! label))
                  (y_distr label)) [0..<k]
      = map (\<lambda>f. Fin (real ((if f = i then map2 (+) (c f) y_counts else c f) ! label)
                          / real (y_distr label))) [0..<k]"
    if "label < labels_num" for label
  proof -
    from d that have "y_distr label \<noteq> 0" by auto
    then show ?thesis
      by (intro map_cong refl) (simp add: true_divide_def vec_add_def c)
  qed
  have k': "[0..<k] \<noteq> []" and n': "[0..<labels_num] \<noteq> []"
    using k n by simp_all
  have "map (\<lambda>label. lift_reduce (np_std L)
              (map (\<lambda>f. true_divide
                  (real ((counts(Some i := vec_add (counts (Some i)) y_counts)) (Some f) ! label))
                  (y_distr label)) [0..<k])) [0..<labels_num]
      = map (\<lambda>label. Fin (np_std L
              (map (\<lambda>f. real ((if f = i then map2 (+) (c f) y_counts else c f) ! label)
                          / real (y_distr label)) [0..<k]))) [0..<labels_num]"
  proof (intro map_cong refl)
    fix label assume "label \<in> set [0..<labels_num]"
    then have "label < labels_num" by simp
    from inner[OF this] show "lift_reduce (np_std L)
              (map (\<lambda>f. true_divide
                  (real ((counts(Some i := vec_add (counts (Some i)) y_counts)) (Some f) ! label))
                  (y_distr label)) [0..<k])
       = Fin (np_std L
              (map (\<lambda>f. real ((if f = i then map2 (+) (c f) y_counts else c f) ! label)
                          / real (y_distr label)) [0..<k]))"
      by (simp only: lift_reduce_Fin[OF k'])
  qed
  then show ?thesis
    unfolding eval_y_counts_per_fold_def Let_def spec_score_def
    by (simp only: lift_reduce_Fin[OF n'])
qed

lemma first_min_fold_Fin:
  "first_min_fold (\<lambda>i. Fin (score i)) k = spec_best_fold score k"
proof -
  have "filter (is_min_fold (\<lambda>i. Fin (score i)) k) [0..<k]
      = filter (\<lambda>i. \<forall>j \<in> {0..<k}. score i \<le> score j) [0..<k]"
    by (intro filter_cong refl) (auto simp: is_min_fold_def not_less)
  then show ?thesis
    unfolding first_min_fold_def spec_best_fold_def by simp
qed

lemma first_min_fold_NaN:
  assumes "0 < k"
  shows "first_min_fold (\<lambda>i. NaN) k = 0"
proof -
  have "filter (is_min_fold (\<lambda>i. NaN) k) [0..<k] = [0..<k]"
    by (simp add: is_min_fold_def)
  with assms show ?thesis
    unfolding first_min_fold_def by (simp add: upt_conv_Cons)
qed

lemma best_fold_defined:
  assumes k: "0 < k" and n: "0 < labels_num"
    and d: "\<forall>label<labels_num. 0 < y_distr label"
    and c: "\<forall>i. counts (Some i) = c i"
  shows "fst (best_fold_loop (eval_y_counts_per_fold L k labels_num y_distr counts y_counts) [0..<k] (None, None))
     = Some (spec_best_fold (spec_score L k labels_num y_distr c y_counts) k)"
proof -
  have "eval_y_counts_per_fold L k labels_num y_distr counts y_counts
      = (\<lambda>i. Fin (spec_score L k labels_num y_distr c y_counts i))"
    by (intro ext eval_defined[OF k n d c])
  then show ?thesis
    unfolding best_fold_eval(1)[OF k] by (simp only: first_min_fold_Fin)
qed

lemma best_fold_undefined:
  assumes k: "0 < k" and z: "\<exists>label<labels_num. y_distr label = 0"
  shows "fst (best_fold_loop (eval_y_counts_per_fold L k labels_num y_distr counts y_counts) [0..<k] (None, None))
     = Some 0"
proof -
  have "eval_y_counts_per_fold L k labels_num y_distr counts y_counts = (\<lambda>i. NaN)"
    using z by (intro ext) (simp add: eval_NaN_iff)
  then show ?thesis
    unfolding best_fold_eval(1)[OF k] by (simp only: first_min_fold_NaN[OF k])
qed

lemma assign_groups_spec:
  assumes k: "0 < k" and n: "0 < labels_num"
    and d: "\<forall>label<labels_num. 0 < y_distr label"
  shows "(\<forall>i. y_counts_per_fold st (Some i) = fold_count sp i) \<Longrightarrow>
         (\<forall>i. groups_per_fold st (Some i) = fold_groups sp i) \<Longrightarrow>
     (\<forall>i. y_counts_per_fold (assign_groups L k labels_num y_distr xs st) (Some i)
           = fold_count (spec_assign L k labels_num y_distr xs sp) i) \<and>
     (\<forall>i. groups_per_fold (assign_groups L k labels_num y_distr xs st) (Some i)
           = fold_groups (spec_assign L k labels_num y_distr xs sp) i)"
proof (induction xs arbitrary: st sp)
  case Nil
  then show ?case by simp
next
  case (Cons x xs)
  obtain g y_counts where x: "x = (g, y_counts)" by (cases x)
  define b where "b = spec_best_fold (spec_score L k labels_num y_distr (fold_count sp) y_counts) k"
  define st1 where "st1 = st\<lparr>y_counts_per_fold := (y_counts_per_fold st)
                   (Some b := vec_add (y_counts_per_fold st (Some b)) y_counts),
               groups_per_fold := (groups_per_fold st)
                   (Some b := insert g (groups_per_fold st (Some b)))\<rparr>"
  define sp1 where "sp1 = sp\<lparr>fold_count := (fold_count sp)(b := map2 (+) (fold_count sp b) y_counts),
               fold_groups := (fold_groups sp)(b := insert g (fold_groups sp b))\<rparr>"
  have s1: "assign_groups L k labels_num y_distr (x # xs) st = assign_groups L k labels_num y_distr xs st1"
    unfolding x assign_groups.simps Let_def best_fold_defined[OF k n d Cons.prems(1)] st1_def b_def ..
  have s2: "spec_assign L k labels_num y_distr (x # xs) sp = spec_assign L k labels_num y_distr xs sp1"
    unfolding x spec_assign.simps Let_def sp1_def b_def ..
  have r1: "\<forall>i. y_counts_per_fold st1 (Some i) = fold_count sp1 i"
    using Cons.prems(1) by (simp add: st1_def sp1_def vec_add_def)
  have r2: "\<forall>i. groups_per_fold st1 (Some i) = fold_groups sp1 i"
    using Cons.prems(2) by (simp add: st1_def sp1_def)
  show ?case unfolding s1 s2 by (rule Cons.IH[OF r1 r2])
qed

lemma assign_groups_undefined:
  assumes k: "0 < k" and z: "\<exists>label<labels_num. y_distr label = 0"
  shows "groups_per_fold (assign_groups L k labels_num y_distr xs st) j
     = (if j = Some 0 then groups_per_fold st j \<union> fst ` set xs else groups_per_fold st j)"
proof (induction xs arbitrary: st)
  case Nil
  show ?case by simp
next
  case (Cons x xs)
  obtain g y_counts where x: "x = (g, y_counts)" by (cases x)
  show ?case
    unfolding x assign_groups.simps Let_def best_fold_undefined[OF k z] Cons.IH
    by auto
qed

lemma assign_groups_None:
  assumes k: "0 < k"
  shows "groups_per_fold (assign_groups L k labels_num y_distr xs st) None = groups_per_fold st None"
proof (induction xs arbitrary: st)
  case Nil
  show ?case by simp
next
  case (Cons x xs)
  obtain g y_counts where x: "x = (g, y_counts)" by (cases x)
  show ?case
    unfolding x assign_groups.simps Let_def best_fold_eval(1)[OF k] Cons.IH
    by simp
qed

lemma sorted_groups_descending_std:
  "sorted_wrt (\<lambda>a b. np_std L (map real (snd b)) \<le> np_std L (map real (snd a))) (sorted_groups L seed xs)"
  using sorted_groups_descending[of L seed xs] unfolding group_std_def .

lemma sorted_groups_stable_std:
  "filter (\<lambda>x. np_std L (map real (snd x)) = s) (sorted_groups L seed xs)
     = filter (\<lambda>x. np_std L (map real (snd x)) = s) (shuffle L seed xs)"
  using sorted_groups_stable[of L s seed xs] unfolding group_std_def .

lemma assign_groups_beyond:
  assumes k: "0 < k" and i: "k \<le> i"
  shows "groups_per_fold (assign_groups L k labels_num y_distr xs st) (Some i) = groups_per_fold st (Some i)"
proof (induction xs arbitrary: st)
  case Nil
  show ?case by simp
next
  case (Cons x xs)
  obtain g y_counts where x: "x = (g, y_counts)" by (cases x)
  from best_fold_eval(2)[OF k, of L labels_num y_distr "y_counts_per_fold st" y_counts] i
  have "first_min_fold (eval_y_counts_per_fold L k labels_num y_distr (y_counts_per_fold st) y_counts) k \<noteq> i"
    by simp
  then show ?case
    unfolding x assign_groups.simps Let_def best_fold_eval(1)[OF k] Cons.IH
    by simp
qed

lemma mean_exact_2: "mean_exact [a, b] = (a + b) / 2"
  by (simp add: mean_exact_def)

lemma std_exact_2: "std_exact [a, b] = \<bar>a - b\<bar> / 2"
proof -
  have "mean_exact (map (\<lambda>x. (x - mean_exact [a, b])\<^sup>2) [a, b]) = ((a - b) / 2)\<^sup>2"
    by (simp add: mean_exact_def power2_eq_square field_simps)
  then have "std_exact [a, b] = sqrt (((a - b) / 2)\<^sup>2)"
    unfolding std_exact_def by simp
  then show ?thesis by simp
qed

lemma spec_best_fold_2: "spec_best_fold score 2 = (if score 0 \<le> score 1 then 0 else 1)"
proof -
  have s: "{0..<2::nat} = {0, 1}" by auto
  show ?thesis unfolding spec_best_fold_def upt_2 s by simp
qed

lemma spec_assign_step:
  assumes "spec_best_fold (spec_score L k n d (fold_count st) yc) k = b"
  shows "spec_assign L k n d ((g, yc) # rest) st =
    spec_assign L k n d rest
      (st\<lparr>fold_count := (fold_count st)(b := map2 (+) (fold_count st b) yc),
          fold_groups := (fold_groups st)(b := insert g (fold_groups st b))\<rparr>)"
  using assms by (simp add: Let_def)

lemma exA_labels: "set [0,0,0,0,1,0,1,1,1::nat] = {0, 1}"
  by auto

lemma exA_card: "card (set [0,0,0,0,1,0,1,1,1::nat]) = 2"
  unfolding exA_labels by simp

lemma exA_class: "labels_are_class_indices [0,0,0,0,1,0,1,1,1] [7,7,8,8,8,9,9,9,9::nat]"
proof -
  have "fst ` set (zip [0,0,0,0,1,0,1,1,1] [7,7,8,8,8,9,9,9,9::nat]) = {0, 1::nat}"
    by auto
  moreover have "{0..Max {0, 1::nat}} = {0, 1}"
    by auto
  ultimately show ?thesis
    unfolding labels_are_class_indices_def exA_labels by simp
qed

lemma exA_pairs:
  "spec_pairs [0,0,0,0,1,0,1,1,1] [7,7,8,8,8,9,9,9,9::nat] = [(7,[2,0]),(8,[2,1]),(9,[1,3])]"
  unfolding spec_pairs_def spec_group_counts_def exA_card upt_2 by simp

lemma exA_distr:
  "spec_y_distr [0,0,0,0,1,0,1,1,1] [7,7,8,8,8,9,9,9,9::nat] 0 = 5"
  "spec_y_distr [0,0,0,0,1,0,1,1,1] [7,7,8,8,8,9,9,9,9::nat] 1 = 4"
  by (simp_all add: spec_y_distr_def)

lemma exA_sorted:
  "sorted_groups (exact_lib :: nat lib) 0 [(7,[2,0]),(8,[2,1]),(9,[1,3])] = [(9,[1,3]),(7,[2,0]),(8,[2,1])]"
  by (simp add: sorted_groups_def exact_lib_def group_std_def std_exact_2)

lemmas spec_score_defs = exact_lib_def spec_score_def spec_best_fold_2 std_exact_2 mean_exact_2 upt_2

lemma exA_distr_Suc:
  "spec_y_distr [0,0,0,0,1,0,1,1,1] [7,7,8,8,8,9,9,9,9::nat] (Suc 0) = 4"
  by (simp add: spec_y_distr_def)

lemma exA_spec:
  "spec_assign (exact_lib :: nat lib) 2 2 (spec_y_distr [0,0,0,0,1,0,1,1,1] [7,7,8,8,8,9,9,9,9::nat])
       [(9,[1,3]),(7,[2,0]),(8,[2,1])] (spec_init 2)
     = \<lparr>fold_count = (\<lambda>_. [0,0])(0 := [1,3], 1 := [4,1]),
        fold_groups = (\<lambda>_. {})(0 := {9}, 1 := {8,7})\<rparr>"
proof -
  define d where "d = spec_y_distr [0,0,0,0,1,0,1,1,1] [7,7,8,8,8,9,9,9,9::nat]"
  have d: "d 0 = 5" "d (Suc 0) = 4"
    unfolding d_def by (rule exA_distr(1), rule exA_distr_Suc)
  define sp0 :: "nat spec_folds" where "sp0 = \<lparr>fold_count = (\<lambda>_. [0,0]), fold_groups = (\<lambda>_. {})\<rparr>"
  define sp1 :: "nat spec_folds" where
    "sp1 = \<lparr>fold_count = (\<lambda>_. [0,0])(0 := [1,3]), fold_groups = (\<lambda>_. {})(0 := {9})\<rparr>"
  define sp2 :: "nat spec_folds" where
    "sp2 = \<lparr>fold_count = (\<lambda>_. [0,0])(0 := [1,3], 1 := [2,0]), fold_groups = (\<lambda>_. {})(0 := {9}, 1 := {7})\<rparr>"
  define sp3 :: "nat spec_folds" where
    "sp3 = \<lparr>fold_count = (\<lambda>_. [0,0])(0 := [1,3], 1 := [4,1]), fold_groups = (\<lambda>_. {})(0 := {9}, 1 := {8,7})\<rparr>"
  have b1: "spec_best_fold (spec_score exact_lib 2 2 d (fold_count sp0) [1,3]) 2 = 0"
    by (simp add: spec_score_defs d sp0_def)
  have b2: "spec_best_fold (spec_score exact_lib 2 2 d (fold_count sp1) [2,0]) 2 = 1"
    by (simp add: spec_score_defs d sp1_def)
  have b3: "spec_best_fold (spec_score exact_lib 2 2 d (fold_count sp2) [2,1]) 2 = 1"
    by (simp add: spec_score_defs d sp2_def)
  have e1: "sp0\<lparr>fold_count := (fold_count sp0)(0 := map2 (+) (fold_count sp0 0) [1,3]),
          fold_groups := (fold_groups sp0)(0 := insert 9 (fold_groups sp0 0))\<rparr> = sp1"
    by (simp add: sp0_def sp1_def numeral_2_eq_2)
  have e2: "sp1\<lparr>fold_count := (fold_count sp1)(1 := map2 (+) (fold_count sp1 1) [2,0]),
          fold_groups := (fold_groups sp1)(1 := insert 7 (fold_groups sp1 1))\<rparr> = sp2"
    by (simp add: sp1_def sp2_def numeral_2_eq_2)
  have e3: "sp2\<lparr>fold_count := (fold_count sp2)(1 := map2 (+) (fold_count sp2 1) [2,1]),
          fold_groups := (fold_groups sp2)(1 := insert 8 (fold_groups sp2 1))\<rparr> = sp3"
    by (simp add: sp2_def sp3_def eval_nat_numeral)
  have s1: "spec_assign exact_lib 2 2 d [(9,[1,3]),(7,[2,0]),(8,[2,1])] sp0
      = spec_assign exact_lib 2 2 d [(7,[2,0]),(8,[2,1])] sp1"
    by (simp only: spec_assign_step[OF b1] e1)
  have s2: "spec_assign exact_lib 2 2 d [(7,[2,0]),(8,[2,1])] sp1
      = spec_assign exact_lib 2 2 d [(8,[2,1])] sp2"
    by (simp only: spec_assign_step[OF b2] e2)
  have s3: "spec_assign exact_lib 2 2 d [(8,[2,1])] sp2 = sp3"
    unfolding spec_assign_step[OF b3] e3 by simp
  have i: "spec_init 2 = sp0"
    by (simp add: spec_init_def sp0_def numeral_2_eq_2)
  show ?thesis
    unfolding d_def[symmetric] i s1 s2 s3 sp3_def ..
qed

lemma exB_class: "\<not> labels_are_class_indices [1,1,1] [7,8,8::nat]"
proof -
  have z: "fst ` set (zip [1,1,1::nat] [7,8,8::nat]) = {1}"
    by simp
  have a: "(0::nat) \<notin> fst ` set (zip [1,1,1::nat] [7,8,8::nat])"
    unfolding z by simp
  have b: "(0::nat) \<in> {0..Max (set [1,1,1])}"
    unfolding atLeastAtMost_iff by (rule conjI) (rule le0)+
  show ?thesis
    unfolding labels_are_class_indices_def using a b by blast
qed

lemma exB_counts: "fst (group_counts [1,1,1] [7,8,8::nat]) = [(7,[0,1]),(8,[0,2])]"
  by (simp add: group_counts_def np_max_def eval_nat_numeral)

lemma exB_sorted:
  "sorted_groups (exact_lib :: nat lib) 0 [(7,[0,1]),(8,[0,2])] = [(8,[0,2]),(7,[0,1])]"
  by (simp add: sorted_groups_def exact_lib_def group_std_def std_exact_2)

subsection \<open>The claims about the splitter\<close>

text \<open>
  Claim C1, for a non-empty \<open>y\<close> and at least one fold. The groups are processed in the
  order obtained by shuffling the (group, count vector) pairs with the seed and sorting the
  result by descending \<^verbatim>\<open>np.std\<close> of the group's own count vector: the order is a permutation
  of the shuffled list, it is descending in \<open>np_std L (map real counts)\<close>, and groups of equal
  standard deviation keep their shuffled order. No group is left without a fold and none
  goes to a fold outside \<open>0..<n_splits\<close>.

  When the labels are class indices, the pairs are those of the specification, and the
  per-fold counts and the groups of every fold after the loops of \<^verbatim>\<open>split\<close> are those of
  the specification's algorithm run on that order: every group goes to the fold that
  minimises the mean over the labels of the standard deviation across the folds of
  \<open>fold_count[f][label] / y_distr[label]\<close>, the counts of the group added to the candidate
  fold, and to the smallest index among the folds of equal score.

  Otherwise a number below the largest label is the label of no sample; its quotient is
  \<open>0 / 0\<close>, nan in numpy, every score is nan, the strict \<^verbatim>\<open><\<close> never holds, and every group
  stays with the first fold probed, fold 0.
\<close>

theorem greedy_assignment_follows_spec:
  assumes "y \<noteq> []" and "0 < n_splits self"
  shows "(let pairs = fst (group_counts y groups);
              shuffled = shuffle L (random_state self) pairs;
              order = sorted_groups L (random_state self) pairs;
              st = assignment L self y groups;
              sp = spec_assign L (n_splits self) (card (set y)) (spec_y_distr y groups) order
                     (spec_init (card (set y)))
          in mset order = mset shuffled
             \<and> sorted_wrt (\<lambda>a b. np_std L (map real (snd b)) \<le> np_std L (map real (snd a))) order
             \<and> (\<forall>s. filter (\<lambda>x. np_std L (map real (snd x)) = s) order
                     = filter (\<lambda>x. np_std L (map real (snd x)) = s) shuffled)
             \<and> groups_per_fold st None = {}
             \<and> (\<forall>i. n_splits self \<le> i \<longrightarrow> groups_per_fold st (Some i) = {})
             \<and> (if labels_are_class_indices y groups
                 then pairs = spec_pairs y groups
                      \<and> (\<forall>i. y_counts_per_fold st (Some i) = fold_count sp i)
                      \<and> (\<forall>i. groups_per_fold st (Some i) = fold_groups sp i)
                 else \<forall>i. groups_per_fold st (Some i) = (if i = 0 then fst ` set order else {})))"
proof -
  let ?k = "n_splits self"
  let ?n = "Suc (Max (set y))"
  let ?order = "sorted_groups L (random_state self) (fst (group_counts y groups))"
  have a: "assignment L self y groups
      = assign_groups L ?k ?n (spec_y_distr y groups) ?order (init_folds ?n)"
    by (simp add: assignment_def Let_def np_max_Max[OF assms(1)] group_counts_distr)
  have none: "groups_per_fold (assignment L self y groups) None = {}"
    unfolding a assign_groups_None[OF assms(2)] by (simp add: init_folds_def)
  have beyond: "\<forall>i. ?k \<le> i \<longrightarrow> groups_per_fold (assignment L self y groups) (Some i) = {}"
    unfolding a by (simp add: assign_groups_beyond[OF assms(2)] init_folds_def)
  have main: "fst (group_counts y groups) = spec_pairs y groups
      \<and> (\<forall>i. y_counts_per_fold (assignment L self y groups) (Some i)
            = fold_count (spec_assign L ?k (card (set y)) (spec_y_distr y groups) ?order
                            (spec_init (card (set y)))) i)
      \<and> (\<forall>i. groups_per_fold (assignment L self y groups) (Some i)
            = fold_groups (spec_assign L ?k (card (set y)) (spec_y_distr y groups) ?order
                            (spec_init (card (set y)))) i)"
    if c: "labels_are_class_indices y groups"
  proof -
    have d: "\<forall>label<?n. 0 < spec_y_distr y groups label"
      using class_indices_distr[OF c] by blast
    have i1: "\<forall>i. y_counts_per_fold (init_folds ?n :: 'a folds) (Some i) = fold_count (spec_init ?n :: 'a spec_folds) i"
      and i2: "\<forall>i. groups_per_fold (init_folds ?n :: 'a folds) (Some i) = fold_groups (spec_init ?n :: 'a spec_folds) i"
      by (simp_all add: init_folds_def spec_init_def)
    from assign_groups_spec[OF assms(2) _ d i1 i2, of L ?order] group_counts_pairs[OF assms(1) c]
    show ?thesis
      unfolding a class_indices_card[OF assms(1) c] by simp
  qed
  have other: "\<forall>i. groups_per_fold (assignment L self y groups) (Some i)
      = (if i = 0 then fst ` set ?order else {})"
    if c: "\<not> labels_are_class_indices y groups"
  proof -
    note z = no_class_indices_distr[OF c]
    show ?thesis
      unfolding a assign_groups_undefined[OF assms(2) z] by (simp add: init_folds_def)
  qed
  show ?thesis
    unfolding Let_def
    using sorted_groups_mset[of L "random_state self" "fst (group_counts y groups)"]
      sorted_groups_descending_std[of L "random_state self" "fst (group_counts y groups)"]
      sorted_groups_stable_std[of L _ "random_state self" "fst (group_counts y groups)"]
      none beyond main other
    by (cases "labels_are_class_indices y groups") simp_all
qed

text \<open>
  Witness for C1. Nine samples with labels 0 and 1 in the groups 7, 8, 9, two folds: the
  count vectors are \<open>[2,0]\<close>, \<open>[2,1]\<close>, \<open>[1,3]\<close> with standard deviations 1, 1/2, 1 and label
  totals 5 and 4. The reversing shuffle gives 9, 8, 7 and the sort 9, 7, 8 (group 8 moves
  last, 9 stays before 7). Group 9 goes to fold 0 (equal scores 19/80), group 7 to fold 1
  (19/80 against 27/80) and group 8 to fold 1 (11/40 against 3/10). In the second input
  no sample has label 0, and both groups go to fold 0.
\<close>

theorem greedy_assignment_follows_spec_witness:
  "[0,0,0,0,1,0,1,1,1] \<noteq> ([] :: nat list) \<and> 0 < n_splits \<lparr>n_splits = 2, random_state = 0\<rparr> \<and>
   labels_are_class_indices [0,0,0,0,1,0,1,1,1] [7,7,8,8,8,9,9,9,9::nat] \<and>
   fst (group_counts [0,0,0,0,1,0,1,1,1] [7,7,8,8,8,9,9,9,9::nat]) = [(7,[2,0]),(8,[2,1]),(9,[1,3])] \<and>
   shuffle exact_lib 0 [(7::nat,[2,0]),(8,[2,1]),(9,[1,3::nat])] = [(9,[1,3]),(8,[2,1]),(7,[2,0])] \<and>
   sorted_groups exact_lib 0 [(7::nat,[2,0]),(8,[2,1]),(9,[1,3])] = [(9,[1,3]),(7,[2,0]),(8,[2,1])] \<and>
   y_counts_per_fold (assignment exact_lib \<lparr>n_splits = 2, random_state = 0\<rparr>
       [0,0,0,0,1,0,1,1,1] [7,7,8,8,8,9,9,9,9::nat]) (Some 0) = [1,3] \<and>
   y_counts_per_fold (assignment exact_lib \<lparr>n_splits = 2, random_state = 0\<rparr>
       [0,0,0,0,1,0,1,1,1] [7,7,8,8,8,9,9,9,9::nat]) (Some 1) = [4,1] \<and>
   groups_per_fold (assignment exact_lib \<lparr>n_splits = 2, random_state = 0\<rparr>
       [0,0,0,0,1,0,1,1,1] [7,7,8,8,8,9,9,9,9::nat]) (Some 0) = {9} \<and>
   groups_per_fold (assignment exact_lib \<lparr>n_splits = 2, random_state = 0\<rparr>
       [0,0,0,0,1,0,1,1,1] [7,7,8,8,8,9,9,9,9::nat]) (Some 1) = {7,8} \<and>
   [1,1,1] \<noteq> ([] :: nat list) \<and> \<not> labels_are_class_indices [1,1,1] [7,8,8::nat] \<and>
   groups_per_fold (assignment exact_lib \<lparr>n_splits = 2, random_state = 0\<rparr> [1,1,1] [7,8,8::nat]) (Some 0) = {7,8} \<and>
   groups_per_fold (assignment exact_lib \<lparr>n_splits = 2, random_state = 0\<rparr> [1,1,1] [7,8,8::nat]) (Some 1) = {}"
proof -
  let ?self = "\<lparr>n_splits = 2, random_state = 0\<rparr>"
  let ?y = "[0,0,0,0,1,0,1,1,1::nat]" and ?g = "[7,7,8,8,8,9,9,9,9::nat]"
  let ?st = "assignment (exact_lib :: nat lib) ?self ?y ?g"
  let ?stB = "assignment (exact_lib :: nat lib) ?self [1,1,1] [7,8,8::nat]"
  have hA: "?y \<noteq> []" and hB: "[1,1,1] \<noteq> ([] :: nat list)" and hk: "0 < n_splits ?self"
    by simp_all
  have sh: "shuffle exact_lib 0 [(7::nat,[2,0]),(8,[2,1]),(9,[1,3::nat])] = [(9,[1,3]),(8,[2,1]),(7,[2,0])]"
    by (simp add: exact_lib_def)
  note A = greedy_assignment_follows_spec[OF hA hk, where L = "exact_lib :: nat lib" and groups = ?g, unfolded Let_def]
  from A[unfolded eqTrueI[OF exA_class] if_True] have A': "fst (group_counts ?y ?g) = spec_pairs ?y ?g
      \<and> (\<forall>i. y_counts_per_fold ?st (Some i)
             = fold_count (spec_assign exact_lib (n_splits ?self) (card (set ?y)) (spec_y_distr ?y ?g)
                 (sorted_groups exact_lib (random_state ?self) (fst (group_counts ?y ?g)))
                 (spec_init (card (set ?y)))) i)
      \<and> (\<forall>i. groups_per_fold ?st (Some i)
             = fold_groups (spec_assign exact_lib (n_splits ?self) (card (set ?y)) (spec_y_distr ?y ?g)
                 (sorted_groups exact_lib (random_state ?self) (fst (group_counts ?y ?g)))
                 (spec_init (card (set ?y)))) i)"
    by blast
  from A' have p: "fst (group_counts ?y ?g) = [(7,[2,0]),(8,[2,1]),(9,[1,3])]"
    by (simp only: exA_pairs)
  have sp: "spec_assign exact_lib (n_splits ?self) (card (set ?y)) (spec_y_distr ?y ?g)
                 (sorted_groups exact_lib (random_state ?self) (fst (group_counts ?y ?g)))
                 (spec_init (card (set ?y)))
      = \<lparr>fold_count = (\<lambda>_. [0,0])(0 := [1,3], 1 := [4,1]),
         fold_groups = (\<lambda>_. {})(0 := {9}, 1 := {8,7})\<rparr>"
    unfolding StratifiedGroupKFold.simps exA_card p exA_sorted exA_spec ..
  from A' have c: "\<And>i. y_counts_per_fold ?st (Some i) = ((\<lambda>_. [0,0])(0 := [1,3], 1 := [4,1::nat])) i"
    and g: "\<And>i. groups_per_fold ?st (Some i) = ((\<lambda>_. {})(0 := {9}, 1 := {8,7::nat})) i"
    unfolding sp by simp_all
  note B = greedy_assignment_follows_spec[OF hB hk, where L = "exact_lib :: nat lib" and groups = "[7,8,8::nat]", unfolded Let_def]
  from B[unfolded StratifiedGroupKFold.simps exB_counts exB_sorted if_not_P[OF exB_class]]
  have gB: "\<forall>i. groups_per_fold ?stB (Some i) = (if i = 0 then fst ` set [(8::nat,[0,2::nat]),(7,[0,1])] else {})"
    by blast
  have gB0: "groups_per_fold ?stB (Some 0) = {7,8}"
    unfolding spec[OF gB, of 0] by auto
  have gB1: "groups_per_fold ?stB (Some 1) = {}"
    unfolding spec[OF gB, of 1] by simp
  have c0: "y_counts_per_fold ?st (Some 0) = [1,3]" unfolding c[of 0] by simp
  have c1: "y_counts_per_fold ?st (Some 1) = [4,1]" unfolding c[of 1] by simp
  have g0: "groups_per_fold ?st (Some 0) = {9}" unfolding g[of 0] by simp
  have g1: "groups_per_fold ?st (Some 1) = {7,8}" unfolding g[of 1] by auto
  from hA hk exA_class p sh exA_sorted c0 c1 g0 g1 hB exB_class gB0 gB1
  show ?thesis
    by blast
qed

text \<open>
  Claim C2. For a non-empty \<open>y\<close>, \<^verbatim>\<open>split\<close> yields exactly \<open>n_splits\<close> pairs, and in every
  pair the train and test indices are disjoint and together are all of \<open>0..<N\<close>, \<open>N\<close> the
  number of samples (the length of \<open>groups\<close>).
\<close>

theorem split_yields_partitions:
  assumes "y \<noteq> []"
  shows "\<exists>pairs. split L self X y groups = Inr pairs \<and> length pairs = n_splits self \<and>
          (\<forall>p \<in> set pairs. set (fst p) \<inter> set (snd p) = {} \<and>
                            set (fst p) \<union> set (snd p) = {0..<length groups})"
  unfolding split_Inr[OF assms]
  by (auto simp: yield_pair_sets simp del: upt_Suc)

text \<open>Witness for C2: four samples, two groups, two folds.\<close>

theorem split_yields_partitions_witness:
  "[0,0,0,0] \<noteq> ([] :: nat list) \<and>
   split (exact_lib :: nat lib) \<lparr>n_splits = 2, random_state = 0\<rparr> () [0,0,0,0] [7,7,8,8::nat]
     = Inr [([0,1],[2,3]), ([2,3],[0,1])] \<and>
   length [([0,1::nat],[2,3::nat]), ([2,3],[0,1])] = n_splits \<lparr>n_splits = 2, random_state = 0\<rparr> \<and>
   set [0,1::nat] \<inter> set [2,3] = {} \<and> set [0,1::nat] \<union> set [2,3] = {0..<length [7,7,8,8::nat]} \<and>
   set [2,3::nat] \<inter> set [0,1] = {} \<and> set [2,3::nat] \<union> set [0,1] = {0..<length [7,7,8,8::nat]}"
proof -
  have h: "[0,0,0,0] \<noteq> ([] :: nat list)" by simp
  from split_yields_partitions[OF h, of "exact_lib :: nat lib" "\<lparr>n_splits = 2, random_state = 0\<rparr>" "()" "[7,7,8,8]"]
  show ?thesis unfolding ex_split by simp
qed

text \<open>
  Claim C3. For parallel \<open>y\<close> and \<open>groups\<close>, at least one fold and a shuffle that permutes
  its argument: every group of \<open>groups\<close> has one fold whose test list holds all its samples,
  and no other fold's test list holds any of them; the sets \<^verbatim>\<open>groups_per_fold[i]\<close> for
  \<open>i < n_splits\<close> are pairwise disjoint and their union is the set of groups.
\<close>

theorem group_in_exactly_one_test_fold:
  assumes "y \<noteq> []" and "length y = length groups" and "0 < n_splits self"
    and "\<forall>xs. mset (shuffle L (random_state self) xs) = mset xs"
  shows "\<exists>pairs. split L self X y groups = Inr pairs \<and>
     (\<forall>g \<in> set groups. \<exists>i<n_splits self.
        (\<forall>j<length groups. groups ! j = g \<longrightarrow> j \<in> set (snd (pairs ! i))) \<and>
        (\<forall>i'<n_splits self. i' \<noteq> i \<longrightarrow> (\<forall>j<length groups. groups ! j = g \<longrightarrow> j \<notin> set (snd (pairs ! i'))))) \<and>
     (\<Union>i<n_splits self. groups_per_fold (assignment L self y groups) (Some i)) = set groups \<and>
     (\<forall>i<n_splits self. \<forall>i'<n_splits self. i \<noteq> i' \<longrightarrow>
        groups_per_fold (assignment L self y groups) (Some i)
          \<inter> groups_per_fold (assignment L self y groups) (Some i') = {})"
proof -
  let ?st = "assignment L self y groups"
  let ?pairs = "map (yield_pair groups ?st) [0..<n_splits self]"
  note fo = assignment_fold_of[OF assms(2,3,4)]
  have nth: "\<And>i. i < n_splits self \<Longrightarrow> ?pairs ! i = yield_pair groups ?st i"
    by simp
  have one: "\<exists>i<n_splits self.
        (\<forall>j<length groups. groups ! j = g \<longrightarrow> j \<in> set (snd (?pairs ! i))) \<and>
        (\<forall>i'<n_splits self. i' \<noteq> i \<longrightarrow> (\<forall>j<length groups. groups ! j = g \<longrightarrow> j \<notin> set (snd (?pairs ! i'))))"
    if "g \<in> set groups" for g
  proof -
    from fo(1)[OF that] obtain b where b: "b < n_splits self"
      "\<And>j. g \<in> groups_per_fold ?st j \<longleftrightarrow> j = Some b" by blast
    show ?thesis
    proof (intro exI[of _ b] conjI allI impI)
      show "b < n_splits self" by fact
    next
      fix j assume "j < length groups" "groups ! j = g"
      with b show "j \<in> set (snd (?pairs ! b))"
        unfolding nth[OF b(1)] yield_pair_test by simp
    next
      fix i' j assume "i' < n_splits self" "i' \<noteq> b" "j < length groups" "groups ! j = g"
      with b(2) show "j \<notin> set (snd (?pairs ! i'))"
        unfolding nth[OF \<open>i' < n_splits self\<close>] yield_pair_test by simp
    qed
  qed
  have un: "(\<Union>i<n_splits self. groups_per_fold ?st (Some i)) = set groups"
  proof (intro set_eqI iffI)
    fix g assume "g \<in> (\<Union>i<n_splits self. groups_per_fold ?st (Some i))"
    then show "g \<in> set groups" using fo(2)[of g] by blast
  next
    fix g assume "g \<in> set groups"
    from fo(1)[OF this] show "g \<in> (\<Union>i<n_splits self. groups_per_fold ?st (Some i))" by blast
  qed
  have dj: "groups_per_fold ?st (Some i) \<inter> groups_per_fold ?st (Some i') = {}" if "i \<noteq> i'" for i i' :: nat
  proof (rule ccontr)
    assume "groups_per_fold ?st (Some i) \<inter> groups_per_fold ?st (Some i') \<noteq> {}"
    then obtain g where g: "g \<in> groups_per_fold ?st (Some i)" "g \<in> groups_per_fold ?st (Some i')"
      by blast
    then have "g \<in> set groups" using fo(2)[of g] by blast
    from fo(1)[OF this] obtain b where "\<And>j. g \<in> groups_per_fold ?st j \<longleftrightarrow> j = Some b"
      by blast
    with g have "Some i = Some b" "Some i' = Some b" by blast+
    with that show False by simp
  qed
  show ?thesis
    unfolding split_Inr[OF assms(1)]
  proof (intro exI[of _ ?pairs] conjI ballI allI impI)
    show "Inr ?pairs = Inr ?pairs" ..
  next
    fix g assume "g \<in> set groups"
    then show "\<exists>i<n_splits self.
        (\<forall>j<length groups. groups ! j = g \<longrightarrow> j \<in> set (snd (?pairs ! i))) \<and>
        (\<forall>i'<n_splits self. i' \<noteq> i \<longrightarrow> (\<forall>j<length groups. groups ! j = g \<longrightarrow> j \<notin> set (snd (?pairs ! i'))))"
      by (rule one)
  next
    show "(\<Union>i<n_splits self. groups_per_fold ?st (Some i)) = set groups" by (rule un)
  next
    fix i i' :: nat assume "i \<noteq> i'"
    then show "groups_per_fold ?st (Some i) \<inter> groups_per_fold ?st (Some i') = {}" by (rule dj)
  qed
qed

text \<open>Witness for C3: group 7 (samples 0, 1) is tested in fold 1 only, group 8 in fold 0 only.\<close>

theorem group_in_exactly_one_test_fold_witness:
  "[0,0,0,0] \<noteq> ([] :: nat list) \<and> length [0,0,0,0::nat] = length [7,7,8,8::nat] \<and>
   0 < n_splits \<lparr>n_splits = 2, random_state = 0\<rparr> \<and>
   (\<forall>xs. mset (shuffle (exact_lib :: nat lib) (random_state \<lparr>n_splits = 2, random_state = 0\<rparr>) xs) = mset xs) \<and>
   split (exact_lib :: nat lib) \<lparr>n_splits = 2, random_state = 0\<rparr> () [0,0,0,0] [7,7,8,8::nat]
     = Inr [([0,1],[2,3]), ([2,3],[0,1])] \<and>
   (\<exists>i<n_splits \<lparr>n_splits = 2, random_state = 0\<rparr>.
        (\<forall>j<length [7,7,8,8::nat]. [7,7,8,8::nat] ! j = 7
            \<longrightarrow> j \<in> set (snd ([([0,1::nat],[2,3::nat]), ([2,3],[0,1])] ! i))) \<and>
        (\<forall>i'<n_splits \<lparr>n_splits = 2, random_state = 0\<rparr>. i' \<noteq> i \<longrightarrow>
           (\<forall>j<length [7,7,8,8::nat]. [7,7,8,8::nat] ! j = 7
            \<longrightarrow> j \<notin> set (snd ([([0,1::nat],[2,3::nat]), ([2,3],[0,1])] ! i'))))) \<and>
   (\<exists>i<n_splits \<lparr>n_splits = 2, random_state = 0\<rparr>.
        (\<forall>j<length [7,7,8,8::nat]. [7,7,8,8::nat] ! j = 8
            \<longrightarrow> j \<in> set (snd ([([0,1::nat],[2,3::nat]), ([2,3],[0,1])] ! i))) \<and>
        (\<forall>i'<n_splits \<lparr>n_splits = 2, random_state = 0\<rparr>. i' \<noteq> i \<longrightarrow>
           (\<forall>j<length [7,7,8,8::nat]. [7,7,8,8::nat] ! j = 8
            \<longrightarrow> j \<notin> set (snd ([([0,1::nat],[2,3::nat]), ([2,3],[0,1])] ! i')))))"
proof -
  have h1: "[0,0,0,0] \<noteq> ([] :: nat list)" by simp
  have h2: "length [0,0,0,0::nat] = length [7,7,8,8::nat]" by simp
  have h3: "0 < n_splits \<lparr>n_splits = 2, random_state = 0\<rparr>" by simp
  have h4: "\<forall>xs. mset (shuffle (exact_lib :: nat lib) (random_state \<lparr>n_splits = 2, random_state = 0\<rparr>) xs) = mset xs"
    by (simp add: exact_shuffle_permutes)
  from group_in_exactly_one_test_fold[OF h1 h2 h3 h4, of "()"]
  obtain pairs where p: "split (exact_lib :: nat lib) \<lparr>n_splits = 2, random_state = 0\<rparr> () [0,0,0,0] [7,7,8,8::nat] = Inr pairs"
    and q: "\<forall>g \<in> set [7,7,8,8::nat]. \<exists>i<n_splits \<lparr>n_splits = 2, random_state = 0\<rparr>.
        (\<forall>j<length [7,7,8,8::nat]. [7,7,8,8::nat] ! j = g \<longrightarrow> j \<in> set (snd (pairs ! i))) \<and>
        (\<forall>i'<n_splits \<lparr>n_splits = 2, random_state = 0\<rparr>. i' \<noteq> i \<longrightarrow>
           (\<forall>j<length [7,7,8,8::nat]. [7,7,8,8::nat] ! j = g \<longrightarrow> j \<notin> set (snd (pairs ! i'))))"
    by (elim exE conjE)
  from p have e: "pairs = [([0,1],[2,3]), ([2,3],[0,1])]"
    unfolding ex_split by simp
  have m7: "7 \<in> set [7,7,8,8::nat]" and m8: "8 \<in> set [7,7,8,8::nat]" by simp_all
  from bspec[OF q m7] bspec[OF q m8] h1 h2 h3 h4 ex_split show ?thesis
    unfolding e by (simp only: simp_thms)
qed

text \<open>
  Claim C4. Two invocations with the same labels, groups, \<open>n_splits\<close> and seed give the
  same assignment and the same sequence of pairs. The samples \<open>X\<close> may even differ, and so
  may the generator at every seed other than \<open>random_state\<close>: \<^verbatim>\<open>split\<close> reads neither.
\<close>

theorem split_deterministic:
  assumes "n_splits self = n_splits self'" and "random_state self = random_state self'"
    and "np_std L = np_std L'" and "np_mean L = np_mean L'"
    and "shuffle L (random_state self) = shuffle L' (random_state self')"
  shows "assignment L self y groups = assignment L' self' y groups \<and>
         split L self X y groups = split L' self' X' y groups"
proof -
  have ev: "eval_y_counts_per_fold L = eval_y_counts_per_fold L'"
    by (intro ext) (simp add: eval_y_counts_per_fold_def assms(3,4))
  have ag: "assign_groups L k n d xs st = assign_groups L' k n d xs st" for k n d xs st
    by (induction xs arbitrary: st) (auto simp: ev Let_def)
  have sg: "sorted_groups L (random_state self) = sorted_groups L' (random_state self')"
    by (intro ext) (simp add: sorted_groups_def group_std_def assms(3,5))
  have a: "assignment L self y groups = assignment L' self' y groups"
    using assms(1) by (simp add: assignment_def Let_def ag sg)
  with assms(1) show ?thesis
    by (simp add: Spec2Isabelle.split_def)
qed

text \<open>
  Witness for C4: the two library records differ at seed 1 and agree at seed 0, the two
  calls pass different \<open>X\<close>, and both yield the same pairs.
\<close>

theorem split_deterministic_witness:
  "n_splits \<lparr>n_splits = 2, random_state = 0\<rparr> = n_splits \<lparr>n_splits = 2, random_state = 0\<rparr> \<and>
   random_state \<lparr>n_splits = 2, random_state = 0\<rparr> = random_state \<lparr>n_splits = 2, random_state = 0\<rparr> \<and>
   np_std (exact_lib :: nat lib) = np_std other_lib \<and> np_mean (exact_lib :: nat lib) = np_mean other_lib \<and>
   shuffle (exact_lib :: nat lib) 0 = shuffle other_lib 0 \<and>
   shuffle (exact_lib :: nat lib) 1 \<noteq> shuffle other_lib 1 \<and>
   split exact_lib \<lparr>n_splits = 2, random_state = 0\<rparr> (''first'') [0,0,0,0] [7,7,8,8::nat]
     = Inr [([0,1],[2,3]), ([2,3],[0,1])] \<and>
   split other_lib \<lparr>n_splits = 2, random_state = 0\<rparr> (True) [0,0,0,0] [7,7,8,8::nat]
     = Inr [([0,1],[2,3]), ([2,3],[0,1])]"
proof -
  have s: "shuffle (exact_lib :: nat lib) 1 \<noteq> shuffle other_lib 1"
  proof
    assume "shuffle (exact_lib :: nat lib) 1 = shuffle other_lib 1"
    then have "shuffle (exact_lib :: nat lib) 1 [(0,[]),(1,[])] = shuffle other_lib 1 [(0,[]),(1,[])]"
      by simp
    then show False by (simp add: exact_lib_def other_lib_def)
  qed
  have e: "split (exact_lib :: nat lib) \<lparr>n_splits = 2, random_state = 0\<rparr> (''first'') [0,0,0,0] [7,7,8,8::nat]
     = Inr [([0,1],[2,3]), ([2,3],[0,1])]"
    unfolding Spec2Isabelle.split_def ex_assignment by (simp add: yield_pair_def upt_2)
  from split_deterministic[of "\<lparr>n_splits = 2, random_state = 0\<rparr>" "\<lparr>n_splits = 2, random_state = 0\<rparr>"
      "exact_lib :: nat lib" other_lib "[0,0,0,0]" "[7,7,8,8]" "''first''" True] s e
  show ?thesis by (simp add: exact_lib_def other_lib_def)
qed

text \<open>
  Counterexample to C6 as stated. With \<open>n_splits = 1\<close> the call yields one pair (empty
  train list, every index in the test list) instead of failing; with one group and
  \<open>n_splits = 2\<close> it yields two pairs, the second with an empty test list.
\<close>

theorem split_accepts_bad_split_counts:
  "split (exact_lib :: nat lib) \<lparr>n_splits = 1, random_state = 0\<rparr> () [0,0] [7,7::nat] = Inr [([], [0,1])]
   \<and> card (set [7,7::nat]) < n_splits \<lparr>n_splits = 2, random_state = 0\<rparr>
   \<and> split (exact_lib :: nat lib) \<lparr>n_splits = 2, random_state = 0\<rparr> () [0,0] [7,7::nat]
       = Inr [([], [0,1]), ([0,1], [])]"
  using ex_one_fold ex_one_group by simp

text \<open>
  Claim C6, as amended. \<^verbatim>\<open>split\<close> checks neither \<open>n_splits\<close> nor the number of groups: it
  fails only for an empty \<open>y\<close> (numpy's ValueError), and for every other input it yields
  \<open>n_splits\<close> pairs, whatever \<open>n_splits\<close> and the number of groups are.
\<close>

theorem split_validates_nothing_but_empty_y:
  "(y = [] \<longrightarrow> split L self X y groups = Inl ValueError) \<and>
   (y \<noteq> [] \<longrightarrow> (\<exists>pairs. split L self X y groups = Inr pairs \<and> length pairs = n_splits self))"
  by (simp add: Spec2Isabelle.split_def)

text \<open>Witness for the amended C6: an empty \<open>y\<close> fails; \<open>n_splits = 1\<close> yields one pair.\<close>

theorem split_validates_nothing_but_empty_y_witness:
  "split (exact_lib :: nat lib) \<lparr>n_splits = 2, random_state = 0\<rparr> () [] ([] :: nat list) = Inl ValueError
   \<and> (\<exists>pairs. split (exact_lib :: nat lib) \<lparr>n_splits = 1, random_state = 0\<rparr> () [0,0] [7,7::nat] = Inr pairs
        \<and> length pairs = 1)"
  using split_validates_nothing_but_empty_y[of "[]" "exact_lib :: nat lib" "\<lparr>n_splits = 2, random_state = 0\<rparr>" "()" "[]"]
    split_validates_nothing_but_empty_y[of "[0,0]" "exact_lib :: nat lib" "\<lparr>n_splits = 1, random_state = 0\<rparr>" "()" "[7,7]"]
  by simp

text \<open>
  Claim C10. In every yielded pair the train list and the test list are strictly
  ascending (hence without duplicates).
\<close>

theorem split_indices_ascending:
  assumes "y \<noteq> []"
  shows "\<exists>pairs. split L self X y groups = Inr pairs \<and>
          (\<forall>p \<in> set pairs. sorted_wrt (<) (fst p) \<and> sorted_wrt (<) (snd p))"
  unfolding split_Inr[OF assms]
  by (auto simp: yield_pair_sorted simp del: upt_Suc)

text \<open>Witness for C10 on the four-sample example.\<close>

theorem split_indices_ascending_witness:
  "[0,0,0,0] \<noteq> ([] :: nat list) \<and>
   split (exact_lib :: nat lib) \<lparr>n_splits = 2, random_state = 0\<rparr> () [0,0,0,0] [7,7,8,8::nat]
     = Inr [([0,1],[2,3]), ([2,3],[0,1])] \<and>
   sorted_wrt (<) [0,1::nat] \<and> sorted_wrt (<) [2,3::nat]"
proof -
  have h: "[0,0,0,0] \<noteq> ([] :: nat list)" by simp
  from split_indices_ascending[OF h, of "exact_lib :: nat lib" "\<lparr>n_splits = 2, random_state = 0\<rparr>" "()" "[7,7,8,8]"]
  show ?thesis unfolding ex_split by simp
qed

section \<open>Proofs about the label encoder\<close>

subsection \<open>Auxiliary lemmas\<close>

lemma ex_row_str_negative: "np_row_str (10, -1) = ''[10 -1]''"
  by (simp add: np_row_str_def str_int_def rjust_def digit_char_def Let_def)

lemma ex_row_str_padded: "np_row_str (1, 10) = ''[ 1 10]''"
  by (simp add: np_row_str_def str_int_def rjust_def digit_char_def Let_def)

lemma digit_val_char: "d < 10 \<Longrightarrow> digit_val (digit_char d) = d"
proof -
  assume "d < 10"
  then have "d \<in> {0, 1, 2, 3, 4, 5, 6, 7, 8, 9}" by auto
  then show ?thesis
    by (auto simp: digit_val_def digit_char_def)
qed

lemma digit_char_not_special: "d < 10 \<Longrightarrow> digit_char d \<noteq> CHR '' '' \<and> digit_char d \<noteq> CHR ''-''"
proof -
  assume "d < 10"
  then have "d \<in> {0, 1, 2, 3, 4, 5, 6, 7, 8, 9}" by auto
  then show ?thesis
    by (auto simp: digit_char_def)
qed

lemma parse_nat_snoc: "parse_nat (s @ [c]) = 10 * parse_nat s + digit_val c"
  by (simp add: parse_nat_def)

lemma parse_str_nat: "parse_nat (str_nat n) = n"
proof (induction n rule: str_nat.induct)
  case (1 n)
  show ?case
  proof (cases "n < 10")
    case True
    then show ?thesis
      by (subst str_nat.simps) (simp add: parse_nat_def digit_val_char)
  next
    case False
    with 1 have "parse_nat (str_nat (n div 10)) = n div 10" by simp
    with False show ?thesis
      by (subst str_nat.simps) (simp add: parse_nat_snoc digit_val_char)
  qed
qed

lemma str_nat_hd: "str_nat n \<noteq> [] \<and> hd (str_nat n) \<noteq> CHR '' '' \<and> hd (str_nat n) \<noteq> CHR ''-''"
proof (induction n rule: str_nat.induct)
  case (1 n)
  show ?case
  proof (cases "n < 10")
    case True
    then show ?thesis
      by (subst (1 2 3) str_nat.simps) (simp add: digit_char_not_special)
  next
    case False
    with 1 have "str_nat (n div 10) \<noteq> [] \<and> hd (str_nat (n div 10)) \<noteq> CHR '' ''
        \<and> hd (str_nat (n div 10)) \<noteq> CHR ''-''" by simp
    with False show ?thesis
      by (subst (1 2 3) str_nat.simps) simp
  qed
qed

lemma str_int_hd: "str_int i \<noteq> [] \<and> hd (str_int i) \<noteq> CHR '' ''"
  using str_nat_hd[of "nat i"] by (simp add: str_int_def)

lemma inj_str_int: "str_int i = str_int j \<Longrightarrow> i = j"
proof -
  assume e: "str_int i = str_int j"
  have neg: "hd (str_int k) = CHR ''-'' \<longleftrightarrow> k < 0" for k
    using str_nat_hd[of "nat k"] by (simp add: str_int_def)
  from e neg[of i] neg[of j] have s: "i < 0 \<longleftrightarrow> j < 0" by simp
  show "i = j"
  proof (cases "i < 0")
    case True
    with s e have "str_nat (nat (- i)) = str_nat (nat (- j))" by (simp add: str_int_def)
    then have "nat (- i) = nat (- j)" by (metis parse_str_nat)
    with True s show ?thesis by simp
  next
    case False
    with s e have "str_nat (nat i) = str_nat (nat j)" by (simp add: str_int_def)
    then have "nat i = nat j" by (metis parse_str_nat)
    with False s show ?thesis by simp
  qed
qed

lemma rjust_length: "length s \<le> w \<Longrightarrow> length (rjust w s) = w"
  by (simp add: rjust_def)

lemma rjust_strip:
  assumes "s \<noteq> []" "hd s \<noteq> CHR '' ''"
  shows "dropWhile (\<lambda>c. c = CHR '' '') (rjust w s) = s"
  using assms by (cases s) (simp_all add: rjust_def dropWhile_append3)

lemma np_row_str_inj: "inj np_row_str"
proof (rule injI)
  fix r r' :: "int \<times> int"
  assume e: "np_row_str r = np_row_str r'"
  let ?a = "str_int (fst r)" and ?b = "str_int (snd r)"
  let ?a' = "str_int (fst r')" and ?b' = "str_int (snd r')"
  let ?w = "max (length ?a) (length ?b)" and ?w' = "max (length ?a') (length ?b')"
  from e have e1: "rjust ?w ?a @ '' '' @ rjust ?w ?b @ '']'' = rjust ?w' ?a' @ '' '' @ rjust ?w' ?b' @ '']''"
    by (simp add: np_row_str_def Let_def)
  have l: "length (rjust ?w ?a) = ?w" "length (rjust ?w ?b) = ?w"
    "length (rjust ?w' ?a') = ?w'" "length (rjust ?w' ?b') = ?w'"
    by (simp_all add: rjust_length)
  from arg_cong[OF e1, of length] l have w: "?w = ?w'" by simp
  with e1 l have a: "rjust ?w ?a = rjust ?w ?a'" and b: "rjust ?w ?b = rjust ?w ?b'"
    by simp_all
  from arg_cong[OF a, of "dropWhile (\<lambda>c. c = CHR '' '')"] str_int_hd
  have "?a = ?a'" by (simp add: rjust_strip)
  moreover from arg_cong[OF b, of "dropWhile (\<lambda>c. c = CHR '' '')"] str_int_hd
  have "?b = ?b'" by (simp add: rjust_strip)
  ultimately show "r = r'"
    by (auto dest: inj_str_int simp: prod_eq_iff)
qed

lemma index_of_nth: "x \<in> set cs \<Longrightarrow> index_of cs x < length cs \<and> cs ! index_of cs x = x"
  by (induction cs) auto

lemma index_of_eq: "x \<in> set cs \<Longrightarrow> y \<in> set cs \<Longrightarrow> index_of cs x = index_of cs y \<longleftrightarrow> x = y"
  by (metis index_of_nth)

lemma index_of_distinct: "distinct cs \<Longrightarrow> k < length cs \<Longrightarrow> index_of cs (cs ! k) = k"
proof (induction cs arbitrary: k)
  case Nil
  then show ?case by simp
next
  case (Cons c cs)
  show ?case
  proof (cases k)
    case 0
    then show ?thesis by simp
  next
    case (Suc k')
    with Cons.prems have "c \<noteq> cs ! k'" by auto
    with Cons Suc show ?thesis by simp
  qed
qed

lemma index_of_image: "distinct cs \<Longrightarrow> index_of cs ` set cs = {0..<length cs}"
proof (intro set_eqI iffI)
  fix k assume "k \<in> index_of cs ` set cs"
  then show "k \<in> {0..<length cs}" using index_of_nth[of _ cs] by auto
next
  fix k assume d: "distinct cs" and "k \<in> {0..<length cs}"
  then have k: "k < length cs" by simp
  from index_of_distinct[OF d k] k show "k \<in> index_of cs ` set cs"
    by (metis image_eqI nth_mem)
qed

lemma fit_transform_length: "length (fit_transform y) = length y"
  by (simp add: fit_transform_def Let_def)

lemma fit_transform_eq:
  assumes "i < length y" "j < length y"
  shows "fit_transform y ! i = fit_transform y ! j \<longleftrightarrow> y ! i = y ! j"
proof -
  have "y ! i \<in> set (sort (remdups y))" "y ! j \<in> set (sort (remdups y))"
    using assms by simp_all
  from index_of_eq[OF this] assms show ?thesis
    by (simp add: fit_transform_def Let_def)
qed

lemma fit_transform_dense: "set (fit_transform y) = {0..<card (set y)}"
proof -
  let ?cs = "sort (remdups y)"
  have d: "distinct ?cs" by simp
  have l: "length ?cs = card (set y)"
    by (simp add: length_remdups_card_conv)
  have "set (fit_transform y) = index_of ?cs ` set ?cs"
    by (simp add: fit_transform_def Let_def)
  with index_of_image[OF d] l show ?thesis by simp
qed

lemma ex_merge: "merge_y_and_others np_row_str [0,1,0,1] [1,1,1,2] = Inr [0,1,0,2]"
  by (simp add: merge_y_and_others_def fit_transform_def np_row_str_def str_int_def rjust_def
      digit_char_def Let_def less_char_def less_eq_char_def)

subsection \<open>The claims\<close>

text \<open>
  Claim C5. For two label sequences of equal length, and a row rendering that is
  injective (numpy's is, \<open>np_row_str_inj\<close>): the encoder returns one code per sample, two
  samples get the same code exactly when their (class label, auxiliary label) pairs are
  equal, and the codes are exactly the numbers below the number of distinct pairs.
\<close>

theorem merge_y_and_others_encodes_pairs:
  assumes "inj str_row" and "length ys = length indices"
  shows "\<exists>out. merge_y_and_others str_row ys indices = Inr out \<and> length out = length ys \<and>
     (\<forall>i<length ys. \<forall>j<length ys.
        (out ! i = out ! j) = ((ys ! i, indices ! i) = (ys ! j, indices ! j))) \<and>
     set out = {0..<card (set (zip ys indices))}"
proof -
  let ?tmp = "zip ys indices"
  let ?out = "fit_transform (map str_row ?tmp)"
  have m: "merge_y_and_others str_row ys indices = Inr ?out"
    using assms(2) by (simp add: merge_y_and_others_def)
  have len: "length ?out = length ys"
    using assms(2) by (simp add: fit_transform_length)
  have eq: "(?out ! i = ?out ! j) = ((ys ! i, indices ! i) = (ys ! j, indices ! j))"
    if "i < length ys" "j < length ys" for i j
  proof -
    from that assms(2) have ij: "i < length (map str_row ?tmp)" "j < length (map str_row ?tmp)"
      by simp_all
    from fit_transform_eq[OF ij] that assms(2)
    have "(?out ! i = ?out ! j) = (str_row (ys ! i, indices ! i) = str_row (ys ! j, indices ! j))"
      by simp
    also have "\<dots> = ((ys ! i, indices ! i) = (ys ! j, indices ! j))"
      using assms(1) by (simp only: inj_eq)
    finally show ?thesis .
  qed
  have "inj_on str_row (set ?tmp)"
    using assms(1) by (rule inj_on_subset) simp
  then have "card (set (map str_row ?tmp)) = card (set ?tmp)"
    by (simp add: card_image)
  then have dense: "set ?out = {0..<card (set ?tmp)}"
    by (simp only: fit_transform_dense)
  from m len eq dense show ?thesis by blast
qed

text \<open>
  Witness for C5 with numpy's rendering: the pairs (0,1), (1,1), (0,1), (1,2) get the codes
  0, 1, 0, 2.
\<close>

theorem merge_y_and_others_encodes_pairs_witness:
  "inj np_row_str \<and> length [0,1,0,1::int] = length [1,1,1,2::int] \<and>
   merge_y_and_others np_row_str [0,1,0,1] [1,1,1,2] = Inr [0,1,0,2] \<and>
   length [0,1,0,2::nat] = length [0,1,0,1::int] \<and>
   ([0,1,0,2::nat] ! 0 = [0,1,0,2] ! 2) = (([0,1,0,1::int] ! 0, [1,1,1,2::int] ! 0) = ([0,1,0,1] ! 2, [1,1,1,2] ! 2)) \<and>
   ([0,1,0,2::nat] ! 1 = [0,1,0,2] ! 3) = (([0,1,0,1::int] ! 1, [1,1,1,2::int] ! 1) = ([0,1,0,1] ! 3, [1,1,1,2] ! 3)) \<and>
   set [0,1,0,2::nat] = {0..<card (set (zip [0,1,0,1::int] [1,1,1,2::int]))}"
proof -
  have h: "length [0,1,0,1::int] = length [1,1,1,2::int]" by simp
  from merge_y_and_others_encodes_pairs[OF np_row_str_inj h]
  obtain out where o: "merge_y_and_others np_row_str [0,1,0,1] [1,1,1,2] = Inr out"
    and l: "length out = length [0,1,0,1::int]"
    and q: "\<forall>i<length [0,1,0,1::int]. \<forall>j<length [0,1,0,1::int].
        (out ! i = out ! j) = (([0,1,0,1::int] ! i, [1,1,1,2::int] ! i) = ([0,1,0,1] ! j, [1,1,1,2] ! j))"
    and d: "set out = {0..<card (set (zip [0,1,0,1::int] [1,1,1,2::int]))}"
    by blast
  from o have e: "out = [0,1,0,2]" unfolding ex_merge by simp
  have i0: "(0::nat) < length [0,1,0,1::int]" and i1: "(1::nat) < length [0,1,0,1::int]"
    and i2: "(2::nat) < length [0,1,0,1::int]" and i3: "(3::nat) < length [0,1,0,1::int]"
    by simp_all
  from q i0 i2 have q02: "(out ! 0 = out ! 2) = (([0,1,0,1::int] ! 0, [1,1,1,2::int] ! 0) = ([0,1,0,1] ! 2, [1,1,1,2] ! 2))"
    by blast
  from q i1 i3 have q13: "(out ! 1 = out ! 3) = (([0,1,0,1::int] ! 1, [1,1,1,2::int] ! 1) = ([0,1,0,1] ! 3, [1,1,1,2] ! 3))"
    by blast
  from np_row_str_inj h ex_merge l q02 q13 d show ?thesis
    unfolding e by (intro conjI)
qed

section \<open>Proofs about the controller\<close>

subsection \<open>Auxiliary lemmas\<close>

lemma early_stop_all_worse:
  assumes "\<forall>l \<in> set w. l < v"
  shows "early_stop_test (length w) v w"
proof -
  have "sum_list (map (\<lambda>l. if v > l then 1 else 0) w) = length w"
    using assms by (induction w) auto
  then show ?thesis by (simp add: early_stop_test_def)
qed

lemma epoch_body_Stopped:
  "fst (epoch_body name steps v st) = Stopped \<longleftrightarrow> early_stop_test steps v (last_losses_val st)"
  by (simp add: epoch_body_def Let_def)

lemma increasing_chain:
  fixes vl :: "nat \<Rightarrow> real"
  assumes "\<forall>i. m \<le> i \<and> i < n \<longrightarrow> vl i < vl (Suc i)"
  shows "m \<le> i \<Longrightarrow> i < j \<Longrightarrow> j \<le> n \<Longrightarrow> vl i < vl j"
proof (induction j)
  case 0
  then show ?case by simp
next
  case (Suc j)
  show ?case
  proof (cases "i = j")
    case True
    with Suc.prems assms show ?thesis by simp
  next
    case False
    with Suc.prems have "i < j" "j \<le> n" by simp_all
    with Suc.IH Suc.prems(1) have "vl i < vl j" by simp
    moreover from assms Suc.prems \<open>i < j\<close> have "vl j < vl (Suc j)" by simp
    ultimately show ?thesis by simp
  qed
qed

lemma window_at_step:
  assumes "0 < steps" "1 \<le> k"
  shows "deque_append steps (window_at steps vl k) (vl k) = window_at steps vl (Suc k)"
proof -
  from assms(2) obtain k' where k: "k = Suc k'" by (cases k) auto
  let ?xs = "replicate steps 1000 @ map vl [1..<Suc k']"
  have len: "length (drop k' ?xs) = steps" by (simp del: upt_Suc)
  have "tl (drop k' ?xs) @ [vl (Suc k')] = drop (Suc k') ?xs @ [vl (Suc k')]"
    by (simp only: tl_drop drop_Suc)
  also have "\<dots> = drop (Suc k') (?xs @ [vl (Suc k')])"
    using assms(1) by (simp del: upt_Suc)
  also have "?xs @ [vl (Suc k')] = replicate steps 1000 @ map vl [1..<Suc (Suc k')]"
    by simp
  finally have "tl (drop k' ?xs) @ [vl (Suc k')]
      = drop (Suc k') (replicate steps 1000 @ map vl [1..<Suc (Suc k')])" .
  with assms(1) len show ?thesis
    unfolding k window_at_def deque_append_def by (simp del: upt_Suc)
qed

lemma window_at_full:
  assumes "0 < steps"
  shows "window_at steps vl (2 * steps) = map vl [steps..<2 * steps]"
proof -
  have "1 \<le> steps" using assms by simp
  from upt_add_eq_append[OF this, of steps]
  have "[1..<2 * steps] = [1..<steps] @ [steps..<2 * steps]"
    by (simp add: mult_2)
  then have "replicate steps 1000 @ map vl [1..<2 * steps]
      = (replicate steps 1000 @ map vl [1..<steps]) @ map vl [steps..<2 * steps]"
    by simp
  moreover have "length (replicate steps (1000::real) @ map vl [1..<steps]) = 2 * steps - 1"
    using assms by simp
  ultimately show ?thesis
    unfolding window_at_def by (metis append_eq_conv_conj)
qed

lemma epoch_loop_Cons:
  "epoch_loop name steps c vl (ep # rest) st =
     (if early_stop_test steps (vl ep) (last_losses_val st)
      then ([\<lparr>combo = c, path = name, epoch = ep, loss = vl ep, act = Stopped\<rparr>], st)
      else (\<lparr>combo = c, path = name, epoch = ep, loss = vl ep, act = fst (epoch_body name steps (vl ep) st)\<rparr>
              # fst (epoch_loop name steps c vl rest (snd (epoch_body name steps (vl ep) st))),
            snd (epoch_loop name steps c vl rest (snd (epoch_body name steps (vl ep) st)))))"
proof (cases "early_stop_test steps (vl ep) (last_losses_val st)")
  case True
  then show ?thesis by (simp add: epoch_body_def)
next
  case False
  then have "fst (epoch_body name steps (vl ep) st) \<noteq> Stopped"
    by (simp add: epoch_body_Stopped)
  with False show ?thesis
    by (simp add: Let_def case_prod_beta)
qed

lemma epoch_body_pushes:
  "\<not> early_stop_test steps v (last_losses_val st) \<Longrightarrow>
     last_losses_val (snd (epoch_body name steps v st)) = deque_append steps (last_losses_val st) v"
  by (simp add: epoch_body_def Let_def)

lemma stop_by_two_windows:
  assumes E: "0 < steps" and inc: "\<forall>i. steps \<le> i \<and> i < 2 * steps \<longrightarrow> vl i < vl (Suc i)"
  shows "1 \<le> k \<Longrightarrow> k \<le> 2 * steps \<Longrightarrow> last_losses_val st = window_at steps vl k \<Longrightarrow>
    length (fst (epoch_loop name steps c vl [k..<n] st)) \<le> 2 * steps + 1 - k \<and>
    (2 * steps < n \<longrightarrow> fst (epoch_loop name steps c vl [k..<n] st) \<noteq> [] \<and>
        act (last (fst (epoch_loop name steps c vl [k..<n] st))) = Stopped)"
proof (induction "2 * steps - k" arbitrary: k st)
  case 0
  then have k: "k = 2 * steps" by simp
  show ?case
  proof (cases "k < n")
    case False
    then show ?thesis using k by simp
  next
    case True
    then have up: "[k..<n] = k # [Suc k..<n]" by (simp add: upt_conv_Cons)
    have w: "last_losses_val st = map vl [steps..<2 * steps]"
      using "0.prems"(3) window_at_full[OF E] k by simp
    have "\<forall>l \<in> set (map vl [steps..<2 * steps]). l < vl (2 * steps)"
      using increasing_chain[OF inc] by auto
    from early_stop_all_worse[OF this]
    have "early_stop_test steps (vl k) (last_losses_val st)"
      using w k by simp
    then show ?thesis
      unfolding up epoch_loop_Cons using k by simp
  qed
next
  case (Suc d)
  then have k: "k < 2 * steps" and d: "d = 2 * steps - Suc k" by simp_all
  show ?case
  proof (cases "k < n")
    case False
    then show ?thesis using k by simp
  next
    case True
    then have up: "[k..<n] = k # [Suc k..<n]" by (simp add: upt_conv_Cons)
    show ?thesis
    proof (cases "early_stop_test steps (vl k) (last_losses_val st)")
      case True
      then show ?thesis
        unfolding up epoch_loop_Cons using k by simp
    next
      case False
      let ?st' = "snd (epoch_body name steps (vl k) st)"
      have "last_losses_val ?st' = window_at steps vl (Suc k)"
        using epoch_body_pushes[OF False] window_at_step[OF E Suc.prems(1)] Suc.prems(3) by simp
      from Suc.hyps(1)[OF d _ _ this] k
      have IH: "length (fst (epoch_loop name steps c vl [Suc k..<n] ?st')) \<le> 2 * steps + 1 - Suc k"
        "2 * steps < n \<longrightarrow> fst (epoch_loop name steps c vl [Suc k..<n] ?st') \<noteq> [] \<and>
          act (last (fst (epoch_loop name steps c vl [Suc k..<n] ?st'))) = Stopped"
        by simp_all
      from IH k False show ?thesis
        unfolding up epoch_loop_Cons by simp
    qed
  qed
qed

lemma early_stop_none_worse:
  assumes "\<forall>l \<in> set w. v \<le> l" and "0 < steps"
  shows "\<not> early_stop_test steps v w"
proof -
  have s: "sum_list (map (\<lambda>l. if v > l then 1 else 0) w) = (0::nat)"
    using assms(1) by (induction w) auto
  show ?thesis unfolding early_stop_test_def s using assms(2) by simp
qed

lemma no_stop_constant:
  assumes E: "0 < steps"
  shows "length (last_losses_val st) = steps \<Longrightarrow> \<forall>l \<in> set (last_losses_val st). v \<le> l \<Longrightarrow>
    length (fst (epoch_loop name steps c (\<lambda>_. v) eps st)) = length eps \<and>
    Stopped \<notin> set (map act (fst (epoch_loop name steps c (\<lambda>_. v) eps st)))"
proof (induction eps arbitrary: st)
  case Nil
  show ?case by simp
next
  case (Cons ep eps)
  have ns: "\<not> early_stop_test steps v (last_losses_val st)"
    using Cons.prems(2) E by (rule early_stop_none_worse)
  let ?st' = "snd (epoch_body name steps v st)"
  have w: "last_losses_val ?st' = tl (last_losses_val st) @ [v]"
    using epoch_body_pushes[OF ns] E Cons.prems(1) by (simp add: deque_append_def)
  have l: "length (last_losses_val ?st') = steps"
    using w E Cons.prems(1) by simp
  have ne: "last_losses_val st \<noteq> []"
    using E Cons.prems(1) by auto
  have g: "\<forall>l \<in> set (last_losses_val ?st'). v \<le> l"
    using w Cons.prems(2) list.set_sel(2)[OF ne] by auto
  have a: "fst (epoch_body name steps v st) \<noteq> Stopped"
    using ns by (simp add: epoch_body_Stopped)
  from Cons.IH[OF l g] ns a show ?case
    unfolding epoch_loop_Cons by simp
qed

lemma best_loss_snoc: "best_loss (vs @ [v]) = min v (best_loss vs)"
  by (simp add: best_loss_def)

lemma fold_min_less: "(v::real) < fold min vs a \<longleftrightarrow> v < a \<and> (\<forall>u \<in> set vs. v < u)"
  by (induction vs arbitrary: a) auto

lemma best_loss_less: "v < best_loss vs \<longleftrightarrow> v < 1000 \<and> (\<forall>u \<in> set vs. v < u)"
  by (simp add: best_loss_def fold_min_less)

lemma best_loss_mono:
  assumes "set xs \<subseteq> set ys"
  shows "best_loss ys \<le> best_loss xs"
proof (rule ccontr)
  assume "\<not> best_loss ys \<le> best_loss xs"
  then have "best_loss xs < best_loss ys" by simp
  then have "best_loss xs < 1000" "\<forall>u \<in> set xs. best_loss xs < u"
    using assms by (auto simp: best_loss_less)
  then show False
    using best_loss_less[of "best_loss xs" xs] by simp
qed

lemma checked_snoc:
  "checked (pre @ [e]) = (if act e = Stopped then checked pre else checked pre @ [loss e])"
  by (simp add: checked_def)

lemma in_combo_snoc:
  "in_combo c (pre @ [e]) = (if combo e = c then in_combo c pre @ [e] else in_combo c pre)"
  by (simp add: in_combo_def)

lemma case_snoc_last:
  "(case ys @ [e] of [] \<Rightarrow> None | x # xs \<Rightarrow> Some (f (last (x # xs)))) = Some (f e)"
  by (cases ys) auto

lemma last_named_snoc:
  "last_named (pre @ [e]) = (if act e = SavedNamed then Some (path e) else last_named pre)"
  by (simp add: last_named_def case_snoc_last)

lemma best_outer_le_fold:
  "best_loss (checked pre) \<le> best_loss (checked (in_combo c pre))"
  by (rule best_loss_mono) (auto simp: checked_def in_combo_def)

lemma epoch_body_inv:
  fixes name :: 'n and ep :: nat
  assumes inv: "ctrl_inv c pre st"
    and ns: "\<not> early_stop_test steps v (last_losses_val st)"
  defines "e \<equiv> \<lparr>combo = c, path = name, epoch = ep, loss = v, act = fst (epoch_body name steps v st)\<rparr>"
  shows "ctrl_inv c (pre @ [e]) (snd (epoch_body name steps v st))" and "entry_ok pre e"
    and "act e \<noteq> Stopped"
proof -
  let ?bf = "best_loss (checked (in_combo c pre))" and ?bo = "best_loss (checked pre)"
  from inv have bo: "best_outer_metric_loss st = ?bo" and bf: "best_metrics_fold_loss st = ?bf"
    and nm: "best_model_name_outer_fold_loss st = last_named pre"
    by (simp_all add: ctrl_inv_def)
  have le: "?bo \<le> ?bf" by (rule best_outer_le_fold)
  consider (named) "v < ?bf" "v < ?bo" | (saved) "v < ?bf" "\<not> v < ?bo" | (kept) "\<not> v < ?bf"
    by blast
  then have "ctrl_inv c (pre @ [e]) (snd (epoch_body name steps v st)) \<and> entry_ok pre e \<and> act e \<noteq> Stopped"
  proof cases
    case named
    then have a: "epoch_body name steps v st = (SavedNamed,
        st\<lparr>last_losses_val := deque_append steps (last_losses_val st) v,
           best_metrics_fold_loss := v, best_outer_metric_loss := v,
           best_model_name_outer_fold_loss := Some name\<rparr>)"
      using ns bo bf by (simp add: epoch_body_def Let_def)
    with named show ?thesis
      by (simp add: e_def ctrl_inv_def entry_ok_def saved_def checked_snoc in_combo_snoc
          last_named_snoc best_loss_snoc)
  next
    case saved
    then have a: "epoch_body name steps v st = (Saved,
        st\<lparr>last_losses_val := deque_append steps (last_losses_val st) v,
           best_metrics_fold_loss := v\<rparr>)"
      using ns bo bf by (simp add: epoch_body_def Let_def)
    with saved bo bf nm show ?thesis
      by (simp add: e_def ctrl_inv_def entry_ok_def saved_def checked_snoc in_combo_snoc
          last_named_snoc best_loss_snoc)
  next
    case kept
    then have a: "epoch_body name steps v st = (Kept,
        st\<lparr>last_losses_val := deque_append steps (last_losses_val st) v\<rparr>)"
      using ns bo bf by (simp add: epoch_body_def Let_def)
    from kept le have "\<not> v < ?bo" by simp
    with a kept bo bf nm show ?thesis
      by (simp add: e_def ctrl_inv_def entry_ok_def saved_def checked_snoc in_combo_snoc
          last_named_snoc best_loss_snoc)
  qed
  then show "ctrl_inv c (pre @ [e]) (snd (epoch_body name steps v st))" and "entry_ok pre e"
    and "act e \<noteq> Stopped"
    by simp_all
qed

lemma ctrl_inv_stopped:
  "ctrl_inv c pre st \<Longrightarrow> act e = Stopped \<Longrightarrow> ctrl_inv c (pre @ [e]) st"
  by (simp add: ctrl_inv_def checked_snoc in_combo_snoc last_named_snoc)

lemma epoch_loop_inv:
  "ctrl_inv c pre st \<Longrightarrow>
   ctrl_inv c (pre @ fst (epoch_loop name steps c vl eps st)) (snd (epoch_loop name steps c vl eps st)) \<and>
   (\<forall>k<length (fst (epoch_loop name steps c vl eps st)).
       entry_ok (pre @ take k (fst (epoch_loop name steps c vl eps st)))
         (fst (epoch_loop name steps c vl eps st) ! k)) \<and>
   (\<forall>e \<in> set (fst (epoch_loop name steps c vl eps st)). combo e = c)"
proof (induction eps arbitrary: pre st)
  case Nil
  then show ?case by simp
next
  case (Cons ep eps)
  show ?case
  proof (cases "early_stop_test steps (vl ep) (last_losses_val st)")
    case True
    with Cons.prems show ?thesis
      unfolding epoch_loop_Cons by (simp add: ctrl_inv_stopped entry_ok_def)
  next
    case False
    let ?e = "\<lparr>combo = c, path = name, epoch = ep, loss = vl ep,
        act = fst (epoch_body name steps (vl ep) st)\<rparr>"
    let ?st = "snd (epoch_body name steps (vl ep) st)"
    let ?es = "fst (epoch_loop name steps c vl eps ?st)"
    note b = epoch_body_inv[OF Cons.prems False, of name ep]
    note IH = Cons.IH[OF b(1)]
    have el: "epoch_loop name steps c vl (ep # eps) st = (?e # ?es, snd (epoch_loop name steps c vl eps ?st))"
      by (simp only: epoch_loop_Cons False if_False)
    have ok: "entry_ok (pre @ take k (?e # ?es)) ((?e # ?es) ! k)" if "k < length (?e # ?es)" for k
    proof (cases k)
      case 0
      with b(2) show ?thesis by simp
    next
      case (Suc k')
      with that IH show ?thesis by simp
    qed
    from IH ok show ?thesis
      unfolding el by simp
  qed
qed

lemma in_combo_none: "\<forall>e \<in> set pre. combo e < c \<Longrightarrow> in_combo c pre = []"
  by (auto simp: in_combo_def filter_empty_conv)

lemma grid_loop_inv:
  "best_outer_metric_loss st = best_loss (checked pre) \<Longrightarrow>
   best_model_name_outer_fold_loss st = last_named pre \<Longrightarrow>
   \<forall>e \<in> set pre. combo e < c \<Longrightarrow>
   best_outer_metric_loss (snd (grid_loop n steps c ps st))
      = best_loss (checked (pre @ fst (grid_loop n steps c ps st))) \<and>
   best_model_name_outer_fold_loss (snd (grid_loop n steps c ps st))
      = last_named (pre @ fst (grid_loop n steps c ps st)) \<and>
   (\<forall>k<length (fst (grid_loop n steps c ps st)).
       entry_ok (pre @ take k (fst (grid_loop n steps c ps st))) (fst (grid_loop n steps c ps st) ! k)) \<and>
   (\<forall>e \<in> set (fst (grid_loop n steps c ps st)). c \<le> combo e)"
proof (induction ps arbitrary: c pre st)
  case Nil
  then show ?case by simp
next
  case (Cons p ps)
  let ?st0 = "st\<lparr>best_metrics_fold_loss := 1000, last_losses_val := replicate steps 1000\<rparr>"
  let ?r1 = "epoch_loop (fst p) steps c (snd p) [1..<n] ?st0"
  let ?es1 = "fst ?r1" and ?st1 = "snd ?r1"
  let ?r2 = "grid_loop n steps (Suc c) ps ?st1"
  let ?es2 = "fst ?r2"
  have i0: "ctrl_inv c pre ?st0"
    using Cons.prems by (simp add: ctrl_inv_def in_combo_none checked_def best_loss_def)
  note e1 = epoch_loop_inv[OF i0, of "fst p" steps "snd p" "[1..<n]"]
  from e1 have i1: "ctrl_inv c (pre @ ?es1) ?st1"
    and ok1: "\<And>k. k < length ?es1 \<Longrightarrow> entry_ok (pre @ take k ?es1) (?es1 ! k)"
    and c1: "\<And>e. e \<in> set ?es1 \<Longrightarrow> combo e = c"
    by blast+
  from i1 have bo: "best_outer_metric_loss ?st1 = best_loss (checked (pre @ ?es1))"
    and nm: "best_model_name_outer_fold_loss ?st1 = last_named (pre @ ?es1)"
    by (simp_all add: ctrl_inv_def)
  have lt: "\<forall>e \<in> set (pre @ ?es1). combo e < Suc c"
    using Cons.prems(3) c1 by (auto simp: less_Suc_eq)
  note IH = Cons.IH[OF bo nm lt]
  have g: "grid_loop n steps c (p # ps) st = (?es1 @ ?es2, snd ?r2)"
    by (simp add: train_candidate_def case_prod_beta Let_def)
  have ok: "entry_ok (pre @ take k (?es1 @ ?es2)) ((?es1 @ ?es2) ! k)" if "k < length (?es1 @ ?es2)" for k
  proof (cases "k < length ?es1")
    case True
    with ok1[OF True] show ?thesis by (simp add: nth_append)
  next
    case False
    with that have "k - length ?es1 < length ?es2" by simp
    with IH have "entry_ok ((pre @ ?es1) @ take (k - length ?es1) ?es2) (?es2 ! (k - length ?es1))"
      by blast
    with False show ?thesis by (simp add: nth_append)
  qed
  have cs: "\<forall>e \<in> set (?es1 @ ?es2). c \<le> combo e"
    using c1 IH by fastforce
  from IH have b2: "best_outer_metric_loss (snd ?r2) = best_loss (checked (pre @ ?es1 @ ?es2))"
    and n2: "best_model_name_outer_fold_loss (snd ?r2) = last_named (pre @ ?es1 @ ?es2)"
    by simp_all
  show ?case
    unfolding g fst_conv snd_conv
  proof (intro conjI allI impI)
    show "best_outer_metric_loss (snd ?r2) = best_loss (checked (pre @ ?es1 @ ?es2))" by (rule b2)
    show "best_model_name_outer_fold_loss (snd ?r2) = last_named (pre @ ?es1 @ ?es2)" by (rule n2)
    show "\<forall>e \<in> set (?es1 @ ?es2). c \<le> combo e" by (rule cs)
  next
    fix k assume "k < length (?es1 @ ?es2)"
    then show "entry_ok (pre @ take k (?es1 @ ?es2)) ((?es1 @ ?es2) ! k)" by (rule ok)
  qed
qed

lemma best_auc_snoc: "best_auc (vs @ [v]) = max v (best_auc vs)"
  by (simp add: best_auc_def)

lemma grid_loop_flatten_inv:
  "best_outer_metric_auc st = best_auc pre \<Longrightarrow>
   map fst (fst (grid_loop_flatten ps st)) = map snd ps \<and>
   best_outer_metric_auc (snd (grid_loop_flatten ps st)) = best_auc (pre @ map snd ps) \<and>
   (\<forall>k<length ps. snd (fst (grid_loop_flatten ps st) ! k)
       = (snd (ps ! k) > best_auc (pre @ take k (map snd ps))))"
proof (induction ps arbitrary: pre st)
  case Nil
  then show ?case by simp
next
  case (Cons p ps)
  obtain name auc where p: "p = (name, auc)" by (cases p)
  show ?case
  proof (cases "auc > best_outer_metric_auc st")
    case True
    let ?st = "st\<lparr>best_outer_metric_auc := auc, best_model_name_outer_fold_auc := Some name\<rparr>"
    have "best_outer_metric_auc ?st = best_auc (pre @ [auc])"
      using True Cons.prems by (simp add: best_auc_snoc)
    note IH = Cons.IH[OF this]
    have "\<forall>k<length (p # ps). snd (fst (grid_loop_flatten (p # ps) st) ! k)
       = (snd ((p # ps) ! k) > best_auc (pre @ take k (map snd (p # ps))))"
    proof (intro allI impI)
      fix k assume "k < length (p # ps)"
      then show "snd (fst (grid_loop_flatten (p # ps) st) ! k)
         = (snd ((p # ps) ! k) > best_auc (pre @ take k (map snd (p # ps))))"
        using IH True Cons.prems by (cases k) (simp_all add: p case_prod_beta)
    qed
    with IH True show ?thesis by (simp add: p case_prod_beta)
  next
    case False
    then have "best_outer_metric_auc st = best_auc (pre @ [auc])"
      using Cons.prems by (simp add: best_auc_snoc)
    note IH = Cons.IH[OF this]
    have "\<forall>k<length (p # ps). snd (fst (grid_loop_flatten (p # ps) st) ! k)
       = (snd ((p # ps) ! k) > best_auc (pre @ take k (map snd (p # ps))))"
    proof (intro allI impI)
      fix k assume "k < length (p # ps)"
      then show "snd (fst (grid_loop_flatten (p # ps) st) ! k)
         = (snd ((p # ps) ! k) > best_auc (pre @ take k (map snd (p # ps))))"
        using IH False Cons.prems by (cases k) (simp_all add: p case_prod_beta)
    qed
    with IH False show ?thesis by (simp add: p case_prod_beta)
  qed
qed

lemma upt_1_2: "[Suc 0..<2] = [Suc 0]"
  by (simp add: upt_rec)

lemmas ctrl_eval = constant_loss_def outer_fold_def train_candidate_def init_ctrl_def epoch_body_def
  early_stop_test_def deque_append_def Let_def

lemma ex_two_combos:
  "fst (outer_fold 2 1 [(''a'', constant_loss (1/2)), (''b'', constant_loss (9/10))])
     = [\<lparr>combo = 0, path = ''a'', epoch = 1, loss = 1/2, act = SavedNamed\<rparr>,
        \<lparr>combo = 1, path = ''b'', epoch = 1, loss = 9/10, act = Saved\<rparr>]"
  "best_outer_metric_loss (snd (outer_fold 2 1 [(''a'', constant_loss (1/2)), (''b'', constant_loss (9/10))])) = 1/2"
  "best_model_name_outer_fold_loss (snd (outer_fold 2 1 [(''a'', constant_loss (1/2)), (''b'', constant_loss (9/10))])) = Some ''a''"
  by (simp_all add: ctrl_eval upt_1_2)

lemma ex_above_sentinel:
  "fst (outer_fold 2 1 [(''a'', constant_loss (2000))])
     = [\<lparr>combo = 0, path = ''a'', epoch = 1, loss = 2000, act = Stopped\<rparr>]"
  by (simp add: ctrl_eval upt_1_2)

lemma ex_flatten:
  "fst (grid_loop_flatten [(''a'', 7/10), (''b'', 6/10), (''c'', 8/10)] init_flat_ctrl)
     = [(7/10, True), (6/10, False), (8/10, True)]"
  by (simp add: init_flat_ctrl_def)

lemma ex_early_stop:
  "map act (fst (train_candidate 10 2 0 (''m'', example_losses) init_ctrl)) = [SavedNamed, SavedNamed, Stopped]"
  by (simp add: train_candidate_def init_ctrl_def epoch_body_def early_stop_test_def
      deque_append_def Let_def example_losses_def upt_conv_Cons sum_list_replicate)

subsection \<open>The claims\<close>

text \<open>
  Claim C7. With a window of \<open>steps \<ge> 1\<close> losses: when the validation loss does not
  increase over the first \<open>steps\<close> epochs and then increases strictly at each of the next
  \<open>steps\<close> epochs (epoch \<open>steps + 1\<close> above epoch \<open>steps\<close>, and so on up to epoch
  \<open>2 * steps\<close>), \<^verbatim>\<open>classifier_step\<close> is called at most \<open>2 * steps\<close> times for the combination,
  and when \<^verbatim>\<open>range(1, N_EPOCHS)\<close> reaches epoch \<open>2 * steps\<close> the loop ends by the
  early-stopping \<^verbatim>\<open>break\<close>. (The bound rests on the increasing phase alone.)
\<close>

theorem early_stopping_within_two_windows:
  assumes "0 < steps"
    and "\<forall>i. 1 \<le> i \<and> i < steps \<longrightarrow> vl (Suc i) \<le> vl i"
    and "\<forall>i. steps \<le> i \<and> i < 2 * steps \<longrightarrow> vl i < vl (Suc i)"
  shows "length (fst (train_candidate n_epochs steps c (name, vl) st)) \<le> 2 * steps \<and>
    (2 * steps < n_epochs \<longrightarrow>
       fst (train_candidate n_epochs steps c (name, vl) st) \<noteq> [] \<and>
       act (last (fst (train_candidate n_epochs steps c (name, vl) st))) = Stopped)"
proof -
  let ?st = "st\<lparr>best_metrics_fold_loss := 1000, last_losses_val := replicate steps 1000\<rparr>"
  have w: "last_losses_val ?st = window_at steps vl 1"
    by (simp add: window_at_def)
  from assms(1) have "1 \<le> 2 * steps" by simp
  from stop_by_two_windows[OF assms(1,3) _ this w, of name c n_epochs]
  show ?thesis by (simp add: train_candidate_def)
qed

text \<open>
  Witness for C7: a window of 2 and the losses 0.6, 0.5, 0.7, 0.8, ...; the loop stops at
  epoch 3.
\<close>

theorem early_stopping_within_two_windows_witness:
  "0 < (2::nat) \<and> example_losses 2 \<le> example_losses 1 \<and> example_losses 2 < example_losses 3 \<and>
   example_losses 3 < example_losses 4 \<and>
   map act (fst (train_candidate 10 2 0 (''m'', example_losses) init_ctrl)) = [SavedNamed, SavedNamed, Stopped] \<and>
   length (fst (train_candidate 10 2 0 (''m'', example_losses) init_ctrl)) \<le> 2 * 2 \<and>
   act (last (fst (train_candidate 10 2 0 (''m'', example_losses) init_ctrl))) = Stopped"
proof -
  have h1: "0 < (2::nat)" by simp
  have h2: "\<forall>i. 1 \<le> i \<and> i < 2 \<longrightarrow> example_losses (Suc i) \<le> example_losses i"
  proof (intro allI impI)
    fix i :: nat assume "1 \<le> i \<and> i < 2"
    then have "i = 1" by simp
    then show "example_losses (Suc i) \<le> example_losses i" by (simp add: example_losses_def)
  qed
  have h3: "\<forall>i. 2 \<le> i \<and> i < 2 * 2 \<longrightarrow> example_losses i < example_losses (Suc i)"
  proof (intro allI impI)
    fix i :: nat assume "2 \<le> i \<and> i < 2 * 2"
    then have "i = 2 \<or> i = 3" by auto
    then show "example_losses i < example_losses (Suc i)" by (auto simp: example_losses_def)
  qed
  have v: "example_losses 2 \<le> example_losses 1" "example_losses 2 < example_losses 3"
    "example_losses 3 < example_losses 4"
    by (simp_all add: example_losses_def)
  from early_stopping_within_two_windows[OF h1 h2 h3, of 10 0 "''m''" init_ctrl] v ex_early_stop
  show ?thesis by simp
qed

text \<open>
  Counterexample to C8 as stated. Two combinations of one epoch each, with losses 0.5 and
  0.9: the second calls \<^verbatim>\<open>torch.save\<close> although 0.9 does not improve on the fold-wide best
  0.5. And a loss of 2000, better than a sentinel of plus infinity, is not saved: it is
  above the sentinel 1000 of the window and stops the combination at once.
\<close>

theorem checkpoint_saved_without_fold_best:
  "map act (fst (outer_fold 2 1 [(''a'', constant_loss (1/2)), (''b'', constant_loss (9/10))])) = [SavedNamed, Saved]
   \<and> map loss (fst (outer_fold 2 1 [(''a'', constant_loss (1/2)), (''b'', constant_loss (9/10))])) = [1/2, 9/10]
   \<and> \<not> (9/10 < (1/2 :: real))
   \<and> map act (fst (outer_fold 2 1 [(''a'', constant_loss (2000))])) = [Stopped]"
  unfolding ex_two_combos ex_above_sentinel by simp

text \<open>
  Claim C8, as amended. Loss, epoch-trained model: among the epochs that pass the
  early-stopping test, \<^verbatim>\<open>torch.save\<close> is called exactly at those whose loss is strictly below
  the best loss of the same parameter combination so far (sentinel 1000, set anew for
  every combination), and the best model name is set exactly at those whose loss is
  strictly below the best loss of all combinations so far (sentinel 1000); after the grid
  \<^verbatim>\<open>best_outer_metric_loss\<close> is that best loss and \<^verbatim>\<open>best_model_name_outer_fold_loss\<close> the
  path of the last epoch that set it. AUC, boosted-tree baseline: the model is dumped and
  named exactly when its AUC is strictly above the best AUC of the combinations before it
  (sentinel -1000), and \<^verbatim>\<open>best_outer_metric_auc\<close> ends as the best AUC.
\<close>

theorem checkpoint_policy:
  "(let tr = fst (outer_fold n_epochs steps grid); st' = snd (outer_fold n_epochs steps grid) in
     (\<forall>k<length tr. act (tr ! k) \<noteq> Stopped \<longrightarrow>
        saved (tr ! k) = (loss (tr ! k) < best_loss (checked (in_combo (combo (tr ! k)) (take k tr)))) \<and>
        (act (tr ! k) = SavedNamed) = (loss (tr ! k) < best_loss (checked (take k tr)))) \<and>
     best_outer_metric_loss st' = best_loss (checked tr) \<and>
     best_model_name_outer_fold_loss st' = last_named tr) \<and>
   (let ds = fst (grid_loop_flatten flat_grid init_flat_ctrl);
        st' = snd (grid_loop_flatten flat_grid init_flat_ctrl) in
     map fst ds = map snd flat_grid \<and>
     (\<forall>k<length flat_grid. snd (ds ! k) = (snd (flat_grid ! k) > best_auc (take k (map snd flat_grid)))) \<and>
     best_outer_metric_auc st' = best_auc (map snd flat_grid))"
proof -
  have "best_outer_metric_loss (init_ctrl :: 'a ctrl) = best_loss (checked [])"
    and "best_model_name_outer_fold_loss (init_ctrl :: 'a ctrl) = last_named []"
    and "\<forall>e \<in> set ([] :: 'a entry list). combo e < 0"
    by (simp_all add: init_ctrl_def best_loss_def checked_def last_named_def)
  from grid_loop_inv[OF this, of n_epochs steps grid]
  have a: "(let tr = fst (outer_fold n_epochs steps grid); st' = snd (outer_fold n_epochs steps grid) in
     (\<forall>k<length tr. act (tr ! k) \<noteq> Stopped \<longrightarrow>
        saved (tr ! k) = (loss (tr ! k) < best_loss (checked (in_combo (combo (tr ! k)) (take k tr)))) \<and>
        (act (tr ! k) = SavedNamed) = (loss (tr ! k) < best_loss (checked (take k tr)))) \<and>
     best_outer_metric_loss st' = best_loss (checked tr) \<and>
     best_model_name_outer_fold_loss st' = last_named tr)"
    by (simp add: outer_fold_def Let_def entry_ok_def)
  have "best_outer_metric_auc (init_flat_ctrl :: 'b flat_ctrl) = best_auc []"
    by (simp add: init_flat_ctrl_def best_auc_def)
  from grid_loop_flatten_inv[OF this, of flat_grid]
  have b: "(let ds = fst (grid_loop_flatten flat_grid init_flat_ctrl);
        st' = snd (grid_loop_flatten flat_grid init_flat_ctrl) in
     map fst ds = map snd flat_grid \<and>
     (\<forall>k<length flat_grid. snd (ds ! k) = (snd (flat_grid ! k) > best_auc (take k (map snd flat_grid)))) \<and>
     best_outer_metric_auc st' = best_auc (map snd flat_grid))"
    by (simp add: Let_def)
  from a b show ?thesis by (rule conjI)
qed

text \<open>
  Witness for the amended C8: the second combination saves at loss 0.9 (its own best is
  the sentinel) and is not named (the fold's best is 0.5); the AUCs 0.7, 0.6, 0.8 dump the
  first and the third model.
\<close>

theorem checkpoint_policy_witness:
  "(1::nat) < length (fst (outer_fold 2 1 [(''a'', constant_loss (1/2)), (''b'', constant_loss (9/10))]))
   \<and> act (fst (outer_fold 2 1 [(''a'', constant_loss (1/2)), (''b'', constant_loss (9/10))]) ! 1) = Saved
   \<and> loss (fst (outer_fold 2 1 [(''a'', constant_loss (1/2)), (''b'', constant_loss (9/10))]) ! 1) = 9/10
   \<and> best_loss (checked (in_combo 1 (take 1 (fst (outer_fold 2 1 [(''a'', constant_loss (1/2)), (''b'', constant_loss (9/10))]))))) = 1000
   \<and> best_loss (checked (take 1 (fst (outer_fold 2 1 [(''a'', constant_loss (1/2)), (''b'', constant_loss (9/10))])))) = 1/2
   \<and> best_outer_metric_loss (snd (outer_fold 2 1 [(''a'', constant_loss (1/2)), (''b'', constant_loss (9/10))])) = 1/2
   \<and> best_model_name_outer_fold_loss (snd (outer_fold 2 1 [(''a'', constant_loss (1/2)), (''b'', constant_loss (9/10))])) = Some ''a''
   \<and> fst (grid_loop_flatten [(''a'', 7/10), (''b'', 6/10), (''c'', 8/10)] init_flat_ctrl)
       = [(7/10, True), (6/10, False), (8/10, True)]
   \<and> best_outer_metric_auc (snd (grid_loop_flatten [(''a'', 7/10), (''b'', 6/10), (''c'', 8/10)] init_flat_ctrl)) = 8/10"
  using checkpoint_policy[of 2 1 "[(''a'', constant_loss (1/2)), (''b'', constant_loss (9/10))]"
      "[(''a'', 7/10), (''b'', 6/10), (''c'', 8/10)]"]
  unfolding ex_two_combos ex_flatten Let_def
  by (simp add: best_loss_def checked_def in_combo_def best_auc_def)

text \<open>
  Claim C9 fails on the code. With \<^verbatim>\<open>N_EPOCHS = 100\<close>, a window of 30 and a constant
  validation loss of 0.5, early stopping never triggers and the candidate is trained for 99
  epochs: the loop runs over \<^verbatim>\<open>range(1, N_EPOCHS)\<close>.
\<close>

theorem epochs_run_one_short:
  "length (fst (train_candidate 100 30 0 (''m'', constant_loss (1/2)) init_ctrl)) = 99 \<and>
   Stopped \<notin> set (map act (fst (train_candidate 100 30 0 (''m'', constant_loss (1/2)) init_ctrl)))"
proof -
  let ?st = "init_ctrl\<lparr>best_metrics_fold_loss := 1000, last_losses_val := replicate 30 1000\<rparr> :: string ctrl"
  have "0 < (30::nat)" by simp
  moreover have "length (last_losses_val ?st) = 30" by simp
  moreover have "\<forall>l \<in> set (last_losses_val ?st). 1/2 \<le> l" by simp
  ultimately have "length (fst (epoch_loop ''m'' 30 0 (\<lambda>_. 1/2) [1..<100] ?st)) = length [1..<100::nat] \<and>
    Stopped \<notin> set (map act (fst (epoch_loop ''m'' 30 0 (\<lambda>_. 1/2) [1..<100] ?st)))"
    by (rule no_stop_constant)
  moreover have "constant_loss (1/2) = (\<lambda>_. 1/2)"
    by (simp add: constant_loss_def fun_eq_iff)
  ultimately show ?thesis by (simp add: train_candidate_def)
qed

end
